theory Spec2Isabelle
  imports Main "HOL-Library.Sublist"
begin

section \<open>Characters and the character classes of Python's \<open>re\<close>\<close>

text \<open>
  A buffer is a Python \<open>str\<close> whose code points are all below 256 (every ASCII source
  file is one); it is modelled as a \<open>string\<close>. The classes \<open>\s\<close> and \<open>\w\<close> are the ones
  \<open>re\<close> uses for \<open>str\<close> patterns, restricted to that range.
\<close>

definition dquote :: char where
  "dquote = CHR 0x22"

definition newline :: char where
  "newline = CHR 0x0A"

definition is_space :: "char \<Rightarrow> bool" where
  "is_space c = (let n = (of_char c :: nat) in
     (9 \<le> n \<and> n \<le> 13) \<or> (28 \<le> n \<and> n \<le> 32) \<or> n = 133 \<or> n = 160)"

definition is_word :: "char \<Rightarrow> bool" where
  "is_word c = (let n = (of_char c :: nat) in
     (48 \<le> n \<and> n \<le> 57) \<or> (65 \<le> n \<and> n \<le> 90) \<or> n = 95 \<or> (97 \<le> n \<and> n \<le> 122) \<or>
     n = 170 \<or> n = 178 \<or> n = 179 \<or> n = 181 \<or> n = 185 \<or> n = 186 \<or>
     (188 \<le> n \<and> n \<le> 190) \<or> (192 \<le> n \<and> n \<le> 214) \<or> (216 \<le> n \<and> n \<le> 246) \<or>
     (248 \<le> n \<and> n \<le> 255))"

datatype cls = Space | Word | NotDquote

fun in_cls :: "cls \<Rightarrow> char \<Rightarrow> bool" where
  "in_cls Space c = is_space c"
| "in_cls Word c = is_word c"
| "in_cls NotDquote c = (c \<noteq> dquote)"

section \<open>The backtracking matcher\<close>

text \<open>
  The fragment of regular expressions the script uses: literal text, a greedy \<open>*\<close> or
  \<open>+\<close> over a character class, sequence, alternation and a numbered capturing group.
  \<open>rx_all p (s, g)\<close> lists every way \<open>p\<close> can match a prefix of \<open>s\<close>, in the order in
  which the backtracking engine tries them (greedy repetition: longest first; alternation:
  left branch first). Each result is the unconsumed rest with the groups captured so far.
\<close>

datatype rx =
    Lit string
  | Star cls
  | Plus cls
  | Seq rx rx
  | Alt rx rx
  | Group nat rx

type_synonym caps = "(nat \<times> string) list"

fun star_rests :: "cls \<Rightarrow> string \<Rightarrow> string list" where
  "star_rests k [] = [Nil]"
| "star_rests k (c # cs) = (if in_cls k c then star_rests k cs @ [c # cs] else [c # cs])"

fun rx_all :: "rx \<Rightarrow> string \<times> caps \<Rightarrow> (string \<times> caps) list" where
  "rx_all (Lit l) (s, g) = (if prefix l s then [(drop (length l) s, g)] else [])"
| "rx_all (Star k) (s, g) = map (\<lambda>r. (r, g)) (star_rests k s)"
| "rx_all (Plus k) (s, g) =
     (case s of [] \<Rightarrow> [] | c # cs \<Rightarrow> if in_cls k c then map (\<lambda>r. (r, g)) (star_rests k cs) else [])"
| "rx_all (Seq a b) sg = concat (map (rx_all b) (rx_all a sg))"
| "rx_all (Alt a b) sg = rx_all a sg @ rx_all b sg"
| "rx_all (Group n a) (s, g) =
     map (\<lambda>(r, g'). (r, (n, take (length s - length r) s) # g')) (rx_all a (s, g))"

text \<open>
  A match at the start of \<open>s\<close> is the first result; with \<open>must_advance\<close> set (the engine
  sets it after an empty match) results that consume nothing are skipped.
\<close>

definition rx_match :: "rx \<Rightarrow> bool \<Rightarrow> string \<Rightarrow> (string \<times> caps) option" where
  "rx_match p must_advance s =
     List.find (\<lambda>(r, g). \<not> (must_advance \<and> length r = length s)) (rx_all p (s, []))"

definition group :: "caps \<Rightarrow> nat \<Rightarrow> string option" where
  "group m n = map_of m n"

section \<open>Substitution and counting\<close>

text \<open>
  \<open>re.sub\<close> is the first component of \<open>re.subn\<close>: scan from the left, replace the match found
  at the earliest position, continue after its end; text between matches is copied.
\<close>

function re_subn_from :: "rx \<Rightarrow> (caps \<Rightarrow> string) \<Rightarrow> bool \<Rightarrow> string \<Rightarrow> string \<times> nat" where
  "re_subn_from p repl adv s =
     (case rx_match p adv s of
        Some (r, g) \<Rightarrow>
          (let (out, n) = re_subn_from p repl (length r = length s) r in (repl g @ out, Suc n))
      | None \<Rightarrow>
          (case s of
             [] \<Rightarrow> ([], 0)
           | c # cs \<Rightarrow> (let (out, n) = re_subn_from p repl False cs in (c # out, n))))"
  by pat_completeness auto

lemma star_rests_suffix: "r \<in> set (star_rests k s) \<Longrightarrow> suffix r s"
  by (induction s) (auto simp: suffix_Cons split: if_splits)

lemma rx_all_suffix: "(r, g') \<in> set (rx_all p (s, g)) \<Longrightarrow> suffix r s"
proof (induction p arbitrary: s g r g')
  case (Lit l)
  then show ?case by (auto simp: suffix_drop split: if_splits)
next
  case (Star k)
  then show ?case by (auto dest: star_rests_suffix)
next
  case (Plus k)
  then show ?case
    by (auto simp: suffix_Cons dest: star_rests_suffix split: list.splits if_splits)
next
  case (Seq a b)
  from Seq.prems obtain r1 g1
    where "(r1, g1) \<in> set (rx_all a (s, g))" "(r, g') \<in> set (rx_all b (r1, g1))"
    by auto
  then show ?case using Seq.IH suffix_order.trans by blast
next
  case (Alt a b)
  then show ?case by auto
next
  case (Group n a)
  then show ?case by auto
qed

lemma rx_match_suffix: "rx_match p adv s = Some (r, g) \<Longrightarrow> suffix r s"
  unfolding rx_match_def
  by (auto simp: find_Some_iff dest!: nth_mem rx_all_suffix[of r g p s "[]"])

termination re_subn_from
proof (relation "measure (\<lambda>(p, repl, adv, s). 2 * length s + (if adv then 0 else 1))")
  show "wf (measure (\<lambda>(p, repl, adv, s). 2 * length s + (if adv then 0 else 1)))"
    by simp
next
  fix p :: rx and repl :: "caps \<Rightarrow> string" and adv s x2 r g
  assume m: "rx_match p adv s = Some x2" and x2: "(r, g) = x2"
  from m x2 have "suffix r s" by (auto dest: rx_match_suffix)
  then have le: "length r \<le> length s" by (rule suffix_length_le)
  from m x2 have "\<not> (adv \<and> length r = length s)"
    unfolding rx_match_def by (auto simp: find_Some_iff)
  with le show "((p, repl, length r = length s, r), p, repl, adv, s)
      \<in> measure (\<lambda>(p, repl, adv, s). 2 * length s + (if adv then 0 else 1))"
    by auto
next
  fix p :: rx and repl :: "caps \<Rightarrow> string" and adv s c cs
  assume "rx_match p adv s = None" "s = c # cs"
  then show "((p, repl, False, cs), p, repl, adv, s)
      \<in> measure (\<lambda>(p, repl, adv, s). 2 * length s + (if adv then 0 else 1))"
    by simp
qed

declare re_subn_from.simps [simp del]

definition re_subn :: "rx \<Rightarrow> (caps \<Rightarrow> string) \<Rightarrow> string \<Rightarrow> string \<times> nat" where
  "re_subn p repl s = re_subn_from p repl False s"

definition re_sub :: "rx \<Rightarrow> (caps \<Rightarrow> string) \<Rightarrow> string \<Rightarrow> string" where
  "re_sub p repl s = fst (re_subn p repl s)"

text \<open>
  A replacement template is text with group references; a group that took no part in the
  match expands to nothing.
\<close>

datatype piece = Txt string | Ref nat

fun expand :: "piece list \<Rightarrow> caps \<Rightarrow> string" where
  "expand [] m = []"
| "expand (Txt t # ps) m = t @ expand ps m"
| "expand (Ref n # ps) m = (case group m n of None \<Rightarrow> [] | Some x \<Rightarrow> x) @ expand ps m"

text \<open>\<open>str.count\<close>: occurrences found left to right, none overlapping the one before.\<close>

fun count_str :: "string \<Rightarrow> string \<Rightarrow> nat" where
  "count_str sub [] = (if sub = [] then 1 else 0)"
| "count_str sub (c # cs) =
     (if prefix sub (c # cs) then Suc (count_str sub (drop (length sub - 1) cs))
      else count_str sub cs)"

section \<open>The script\<close>

text \<open>The Step-1 pattern \<^verbatim>\<open>(sqlx::query\(\s*r#"[^"]*"#),\s*(\w+)\s*\)\<close>.\<close>

definition pattern :: rx where
  "pattern =
     Seq (Group 1 (Seq (Lit ''sqlx::query('') (Seq (Star Space)
            (Seq (Lit [CHR ''r'', CHR ''#'', dquote]) (Seq (Star NotDquote) (Lit [dquote, CHR ''#'']))))))
    (Seq (Lit '','') (Seq (Star Space) (Seq (Group 2 (Plus Word)) (Seq (Star Space) (Lit '')'')))))"

text \<open>An f-string writes a group that is \<open>None\<close> as the text \<open>None\<close>.\<close>

definition fmt :: "string option \<Rightarrow> string" where
  "fmt v = (case v of None \<Rightarrow> ''None'' | Some x \<Rightarrow> x)"

definition replace_query :: "caps \<Rightarrow> string" where
  "replace_query m =
     (let query_part = group m 1; param = group m 2
      in fmt query_part @ '')'' @ [newline] @ ''        .bind('' @ fmt param @ '')'')"

text \<open>The Step-2 pattern \<^verbatim>\<open>\)\s*\n\s*\)\s*\n\s*\.(fetch_(?:one|all))\<close> and its template
  \<^verbatim>\<open>)\n        .\1\<close>.\<close>

definition pattern2 :: rx where
  "pattern2 =
     Seq (Lit '')'') (Seq (Star Space) (Seq (Lit [newline]) (Seq (Star Space)
    (Seq (Lit '')'') (Seq (Star Space) (Seq (Lit [newline]) (Seq (Star Space)
    (Seq (Lit ''.'') (Group 1 (Seq (Lit ''fetch_'') (Alt (Lit ''one'') (Lit ''all''))))))))))))"

definition template2 :: "piece list" where
  "template2 = [Txt ('')'' @ [newline] @ ''        .''), Ref 1]"

definition step1 :: "string \<Rightarrow> string" where
  "step1 content = re_sub pattern replace_query content"

definition step2 :: "string \<Rightarrow> string" where
  "step2 fixed_content = re_sub pattern2 (expand template2) fixed_content"

text \<open>
  The text transformation of \<open>fix_sqlx_syntax\<close>, between reading the file and writing it
  back: the new content and the count it prints.
\<close>

definition rewrite :: "string \<Rightarrow> string \<times> nat" where
  "rewrite content =
     (let fixed_content = step1 content;
          fixed_content = step2 fixed_content;
          original_count = count_str ''sqlx::query('' content;
          fixed_count = count_str ''.bind('' fixed_content
      in (fixed_content, fixed_count))"

section \<open>Files and console\<close>

text \<open>
  The part of the world the script touches: regular text files by path, the lines it
  prints and, for the order of events, the list of writes in the order they happen. The only
  failure modelled is a file that does not exist; an uncaught exception ends the run and
  leaves the world as it is at that point.
\<close>

datatype error = FileNotFound string

datatype line = Backup_created string | Fixed_syntax string | Fixed_count nat | Build_hint

record world =
  files :: "string \<rightharpoonup> string"
  console :: "line list"
  writes :: "(string \<times> string) list"

definition read_text :: "string \<Rightarrow> world \<Rightarrow> error + string" where
  "read_text path w = (case files w path of None \<Rightarrow> Inl (FileNotFound path) | Some data \<Rightarrow> Inr data)"

definition write_text :: "string \<Rightarrow> string \<Rightarrow> world \<Rightarrow> world" where
  "write_text path data w = w\<lparr>files := (files w)(path \<mapsto> data), writes := writes w @ [(path, data)]\<rparr>"

definition print :: "line \<Rightarrow> world \<Rightarrow> world" where
  "print l w = w\<lparr>console := console w @ [l]\<rparr>"

definition shutil_copy :: "string \<Rightarrow> string \<Rightarrow> world \<Rightarrow> error option \<times> world" where
  "shutil_copy src dst w =
     (case read_text src w of
        Inl e \<Rightarrow> (Some e, w)
      | Inr data \<Rightarrow> (None, write_text dst data w))"

definition fix_sqlx_syntax :: "string \<Rightarrow> world \<Rightarrow> error option \<times> world" where
  "fix_sqlx_syntax file_path w =
     (case read_text file_path w of
        Inl e \<Rightarrow> (Some e, w)
      | Inr content \<Rightarrow>
          (let (fixed_content, fixed_count) = rewrite content;
               w = write_text file_path fixed_content w;
               w = print (Fixed_syntax file_path) w;
               w = print (Fixed_count fixed_count) w
           in (None, w)))"

definition file_path :: string where
  "file_path = ''/home/cklose/ruv-fann-mcp1/swarm/src/agent.rs''"

definition backup_path :: string where
  "backup_path = file_path @ ''.bak2''"

definition main :: "world \<Rightarrow> error option \<times> world" where
  "main w =
     (case shutil_copy file_path backup_path w of
        (Some e, w) \<Rightarrow> (Some e, w)
      | (None, w) \<Rightarrow>
          (let w = print (Backup_created backup_path) w
           in case fix_sqlx_syntax file_path w of
                (Some e, w) \<Rightarrow> (Some e, w)
              | (None, w) \<Rightarrow> (None, print Build_hint w)))"

section \<open>Auxiliary notions\<close>

text \<open>
  None of the following is part of the script; the claims are stated with them and proved
  through them. \<open>rejects k r\<close>: \<open>r\<close> matches no text that starts with a character of class
  \<open>k\<close>, so a greedy repetition of \<open>k\<close> before \<open>r\<close> never has to give a character back.
  \<open>match1\<close> and \<open>match2\<close> are the two patterns as direct scans; they are shown below to be
  what the backtracking matcher computes.
\<close>

definition rejects :: "cls \<Rightarrow> rx \<Rightarrow> bool" where
  "rejects k r = (\<forall>c cs g. in_cls k c \<longrightarrow> rx_all r (c # cs, g) = [])"

definition strip :: "string \<Rightarrow> string \<Rightarrow> string option" where
  "strip l s = (if prefix l s then Some (drop (length l) s) else None)"

definition match1 :: "string \<Rightarrow> (string \<times> caps) option" where
  "match1 s =
     (case strip ''sqlx::query('' s of None \<Rightarrow> None | Some s1 \<Rightarrow>
     (case strip [CHR ''r'', CHR ''#'', dquote] (dropWhile is_space s1) of None \<Rightarrow> None | Some s2 \<Rightarrow>
     (case strip [dquote, CHR ''#''] (dropWhile (\<lambda>c. c \<noteq> dquote) s2) of None \<Rightarrow> None | Some s3 \<Rightarrow>
     (case strip '','' s3 of None \<Rightarrow> None | Some s4 \<Rightarrow>
     (let s5 = dropWhile is_space s4 in
      if takeWhile is_word s5 = [] then None
      else (case strip '')'' (dropWhile is_space (dropWhile is_word s5)) of None \<Rightarrow> None
            | Some r \<Rightarrow> Some (r, [(2, takeWhile is_word s5), (1, take (length s - length s3) s)])))))))"

definition fetch_tail :: "string \<Rightarrow> (string \<times> caps) option" where
  "fetch_tail s =
     (case strip ''.fetch_'' s of None \<Rightarrow> None | Some s3 \<Rightarrow>
     (case strip ''one'' s3 of Some r \<Rightarrow> Some (r, [(1, ''fetch_one'')]) | None \<Rightarrow>
     (case strip ''all'' s3 of Some r \<Rightarrow> Some (r, [(1, ''fetch_all'')]) | None \<Rightarrow> None)))"

definition paren_line :: "(string \<Rightarrow> (string \<times> caps) option) \<Rightarrow> string \<Rightarrow> (string \<times> caps) option" where
  "paren_line k s =
     (case strip '')'' s of None \<Rightarrow> None | Some s1 \<Rightarrow>
      if newline \<notin> set (takeWhile is_space s1) then None else k (dropWhile is_space s1))"

definition match2 :: "string \<Rightarrow> (string \<times> caps) option" where
  "match2 s = paren_line (paren_line fetch_tail) s"

text \<open>
  \<open>advancing p\<close>: no match of \<open>p\<close> is empty. \<open>match_starts p s\<close>: the positions of \<open>s\<close> at
  which \<open>p\<close> matches, in increasing order (matches may overlap; \<open>re.sub\<close> takes the first and
  goes on behind it).
\<close>

definition advancing :: "rx \<Rightarrow> bool" where
  "advancing p = (\<forall>s r g. rx_match p False s = Some (r, g) \<longrightarrow> length r < length s)"

definition match_starts :: "rx \<Rightarrow> string \<Rightarrow> nat list" where
  "match_starts p s = filter (\<lambda>i. rx_match p False (drop i s) \<noteq> None) [0..<Suc (length s)]"

text \<open>
  The text of a call site \<^verbatim>\<open>sqlx::query(r#"body"#, param)\<close> with its optional white space,
  what Step 1 puts in its place, and the same for the cleanup site of Step 2.
\<close>

definition call_head :: "string \<Rightarrow> string \<Rightarrow> string" where
  "call_head ws1 body = ''sqlx::query('' @ ws1 @ [CHR ''r'', CHR ''#'', dquote] @ body @ [dquote, CHR ''#'']"

definition call_site :: "string \<Rightarrow> string \<Rightarrow> string \<Rightarrow> string \<Rightarrow> string \<Rightarrow> string" where
  "call_site ws1 body ws2 param ws3 = call_head ws1 body @ '','' @ ws2 @ param @ ws3 @ '')''"

definition bound_call :: "string \<Rightarrow> string \<Rightarrow> string \<Rightarrow> string" where
  "bound_call ws1 body param =
     call_head ws1 body @ '')'' @ [newline] @ ''        .bind('' @ param @ '')''"

definition well_formed :: "string \<Rightarrow> string \<Rightarrow> string \<Rightarrow> string \<Rightarrow> string \<Rightarrow> bool" where
  "well_formed ws1 body ws2 param ws3 \<longleftrightarrow>
     list_all is_space ws1 \<and> dquote \<notin> set body \<and> list_all is_space ws2 \<and>
     param \<noteq> [] \<and> list_all is_word param \<and> list_all is_space ws3"

definition cleanup_site :: "string \<Rightarrow> string \<Rightarrow> string \<Rightarrow> string" where
  "cleanup_site w1 w2 t = '')'' @ w1 @ '')'' @ w2 @ ''.'' @ t"

definition cleanup_ok :: "string \<Rightarrow> string \<Rightarrow> string \<Rightarrow> bool" where
  "cleanup_ok w1 w2 t \<longleftrightarrow>
     list_all is_space w1 \<and> newline \<in> set w1 \<and> list_all is_space w2 \<and> newline \<in> set w2 \<and>
     (t = ''fetch_one'' \<or> t = ''fetch_all'')"

definition collapsed :: "string \<Rightarrow> string" where
  "collapsed t = '')'' @ [newline] @ ''        .'' @ t"

text \<open>\<open>safe_join m a b\<close>: no occurrence of \<open>m\<close> in \<open>a @ b\<close> lies across the join.\<close>

definition safe_join :: "string \<Rightarrow> string \<Rightarrow> string \<Rightarrow> bool" where
  "safe_join m a b \<longleftrightarrow> a = [] \<or> b = [] \<or> hd b \<notin> set (tl m) \<or> last a \<notin> set (butlast m)"

text \<open>
  \<open>scan_spans p k s\<close>: the spans (start, end), counted from the offset \<open>k\<close>, of the
  substitutions that \<open>re.sub\<close> performs on \<open>s\<close>, left to right. It follows the recursion of
  \<open>re_subn_from\<close> for a pattern whose matches are never empty, as the matches of both patterns
  of the script are.
\<close>

function scan_spans :: "rx \<Rightarrow> nat \<Rightarrow> string \<Rightarrow> (nat \<times> nat) list" where
  "scan_spans p k s =
     (case rx_match p False s of
        Some (r, g) \<Rightarrow>
          if length r < length s
          then (k, k + (length s - length r)) # scan_spans p (k + (length s - length r)) r
          else []
      | None \<Rightarrow> (case s of [] \<Rightarrow> [] | c # cs \<Rightarrow> scan_spans p (Suc k) cs))"
  by pat_completeness auto
termination
  by (relation "measure (\<lambda>(p, k, s). length s)") auto

declare scan_spans.simps [simp del]

text \<open>
  \<open>local_match p\<close>: a match of \<open>p\<close> depends on the text it consumes only; the same text
  matches in the same way whatever follows it.
\<close>

definition local_match :: "rx \<Rightarrow> bool" where
  "local_match p = (\<forall>s r g y. rx_match p False s = Some (r, g) \<longrightarrow>
     rx_match p False (take (length s - length r) s @ y) = Some (y, g))"

text \<open>Two worlds that agree on the target file and differ elsewhere, for the examples.\<close>

definition world_a :: world where
  "world_a = \<lparr>files = [file_path \<mapsto> ''sqlx::query(r#'' @ [dquote] @ ''q'' @ [dquote] @ ''#, id)''],
     console = [], writes = []\<rparr>"

definition world_b :: world where
  "world_b = \<lparr>files = [file_path \<mapsto> ''sqlx::query(r#'' @ [dquote] @ ''q'' @ [dquote] @ ''#, id)'',
       ''/tmp/other'' \<mapsto> ''x''],
     console = [Build_hint], writes = [(''/tmp/other'', ''x'')]\<rparr>"

section \<open>The matcher on the two patterns\<close>

text \<open>
  Where a greedy repetition is followed by something that rejects its class, only the longest
  run can lead to a match, and the list of results is that of a single scan.
\<close>

lemma rejectsD: "rejects k r \<Longrightarrow> in_cls k c \<Longrightarrow> rx_all r (c # cs, g) = []"
  by (simp add: rejects_def)

lemma space_not_word: "is_space c \<Longrightarrow> \<not> is_word c"
  by (auto simp: is_space_def is_word_def Let_def)

lemma seq_lit: "rx_all (Seq (Lit l) r) (s, g) = (if prefix l s then rx_all r (drop (length l) s, g) else [])"
  by simp

lemma seq_star:
  assumes "rejects k r"
  shows "rx_all (Seq (Star k) r) (s, g) = rx_all r (dropWhile (in_cls k) s, g)"
proof -
  have "concat (map (rx_all r) (map (\<lambda>x. (x, g)) (star_rests k s))) = rx_all r (dropWhile (in_cls k) s, g)"
    using assms by (induction s) (auto simp: rejectsD)
  then show ?thesis by simp
qed

lemma seq_group_plus_aux:
  assumes "rejects k r"
  shows "rx_all (Seq (Group n (Plus k)) r) (s, g) =
    (case s of [] \<Rightarrow> [] | c # cs \<Rightarrow>
       if in_cls k c then rx_all r (dropWhile (in_cls k) cs, (n, c # takeWhile (in_cls k) cs) # g) else [])"
proof (cases s)
  case Nil
  then show ?thesis by simp
next
  case (Cons c cs)
  have *: "concat (map (\<lambda>x. rx_all r (x, (n, take (Suc (length cs) - length x) (c # cs)) # g)) (star_rests k t))
     = rx_all r (dropWhile (in_cls k) t, (n, c # takeWhile (in_cls k) cs) # g)"
    if "suffix t cs" "takeWhile (in_cls k) cs = take (length cs - length t) cs @ takeWhile (in_cls k) t" for t
    using that
  proof (induction t)
    case Nil
    then show ?case by (simp add: Suc_diff_le takeWhile_eq_all_conv[THEN iffD2])
  next
    case (Cons a t)
    then obtain u where u: "cs = u @ a # t" by (auto simp: suffix_def)
    show ?case
    proof (cases "in_cls k a")
      case True
      have "suffix t cs" using u by (auto simp: suffix_def)
      moreover have "takeWhile (in_cls k) cs = take (length cs - length t) cs @ takeWhile (in_cls k) t"
        using Cons.prems(2) True u by simp
      ultimately show ?thesis using Cons.IH True assms by (simp add: rejectsD)
    next
      case False
      then show ?thesis using Cons.prems(2) u by (simp add: Suc_diff_le)
    qed
  qed
  show ?thesis using Cons *[of cs] by (simp add: comp_def case_prod_beta)
qed

lemma seq_group_plus:
  assumes "rejects k r"
  shows "rx_all (Seq (Group n (Plus k)) r) (s, g) =
    (if takeWhile (in_cls k) s = [] then []
     else rx_all r (dropWhile (in_cls k) s, (n, takeWhile (in_cls k) s) # g))"
  unfolding seq_group_plus_aux[OF assms] by (cases s) auto

lemma rejects_lit: "\<not> in_cls k x \<Longrightarrow> rejects k (Lit (x # l))"
  by (auto simp: rejects_def)

lemma rejects_seq_lit: "\<not> in_cls k x \<Longrightarrow> rejects k (Seq (Lit (x # l)) r)"
  by (auto simp: rejects_def)

lemma rejects_seq_star:
  "(\<And>c. in_cls k c \<Longrightarrow> \<not> in_cls k' c) \<Longrightarrow> rejects k r \<Longrightarrow> rejects k (Seq (Star k') r)"
  by (auto simp: rejects_def)

lemma rejects_seq_group_plus:
  "(\<And>c. in_cls k c \<Longrightarrow> \<not> in_cls k' c) \<Longrightarrow> rejects k (Seq (Group n (Plus k')) r)"
  by (auto simp: rejects_def)

lemma concat_replicate_snoc: "concat (replicate n X) @ X = X @ concat (replicate n X)"
  by (induction n) auto

text \<open>
  In \<^verbatim>\<open>\s*\n\s*\<close> the line break is white space itself, so the matcher does backtrack: there
  is one way through for each line break in the run. All of them end at the same place.
\<close>

lemma seq_star_nl_star:
  assumes "rejects Space r"
  shows "rx_all (Seq (Star Space) (Seq (Lit [newline]) (Seq (Star Space) r))) (s, g) =
    concat (replicate (count_list (takeWhile is_space s) newline) (rx_all r (dropWhile is_space s, g)))"
proof -
  have nl: "is_space newline" by (simp add: is_space_def newline_def)
  have "concat (map (rx_all (Seq (Lit [newline]) (Seq (Star Space) r))) (map (\<lambda>x. (x, g)) (star_rests Space s)))
    = concat (replicate (count_list (takeWhile is_space s) newline) (rx_all r (dropWhile is_space s, g)))"
  proof (induction s)
    case Nil
    then show ?case by simp
  next
    case (Cons c cs)
    have in_eq: "in_cls Space = is_space" by (rule ext) simp
    show ?case
    proof (cases "is_space c")
      case True
      have "rx_all (Seq (Lit [newline]) (Seq (Star Space) r)) (c # cs, g) =
        (if c = newline then rx_all r (dropWhile is_space cs, g) else [])"
        by (simp add: seq_lit seq_star[OF assms] in_eq del: rx_all.simps(4))
      then show ?thesis using True Cons.IH
        by (simp add: concat_replicate_snoc del: rx_all.simps)
    next
      case False
      then have "c \<noteq> newline" using nl by auto
      then show ?thesis using False by simp
    qed
  qed
  then show ?thesis by simp
qed

lemma find_app:
  "List.find P (xs @ ys) = (case List.find P xs of None \<Rightarrow> List.find P ys | Some x \<Rightarrow> Some x)"
  by (induction xs) auto

lemma find_concat_replicate:
  "List.find P (concat (replicate n X)) = (if n = 0 then None else List.find P X)"
  by (induction n) (auto simp: find_app split: option.splits)

lemma in_cls_eqs: "in_cls Space = is_space" "in_cls Word = is_word" "in_cls NotDquote = (\<lambda>c. c \<noteq> dquote)"
  by (rule ext, simp)+

lemma pattern_head_all:
  "rx_all (Seq (Lit ''sqlx::query('') (Seq (Star Space)
            (Seq (Lit [CHR ''r'', CHR ''#'', dquote]) (Seq (Star NotDquote) (Lit [dquote, CHR ''#'']))))) (s, g) =
   (case strip ''sqlx::query('' s of None \<Rightarrow> [] | Some s1 \<Rightarrow>
   (case strip [CHR ''r'', CHR ''#'', dquote] (dropWhile is_space s1) of None \<Rightarrow> [] | Some s2 \<Rightarrow>
   (case strip [dquote, CHR ''#''] (dropWhile (\<lambda>c. c \<noteq> dquote) s2) of None \<Rightarrow> [] | Some s3 \<Rightarrow> [(s3, g)])))"
proof -
  have r1: "rejects Space (Seq (Lit [CHR ''r'', CHR ''#'', dquote]) (Seq (Star NotDquote) (Lit [dquote, CHR ''#''])))"
    by (rule rejects_seq_lit) (simp add: is_space_def)
  have r2: "rejects NotDquote (Lit [dquote, CHR ''#''])"
    by (rule rejects_lit) simp
  show ?thesis
    by (simp add: seq_lit seq_star[OF r1] seq_star[OF r2] in_cls_eqs strip_def del: rx_all.simps(4))
qed

lemma pattern_tail_all:
  "rx_all (Seq (Lit '','') (Seq (Star Space) (Seq (Group 2 (Plus Word)) (Seq (Star Space) (Lit '')''))))) (s3, g) =
   (case strip '','' s3 of None \<Rightarrow> [] | Some s4 \<Rightarrow>
      (let s5 = dropWhile is_space s4 in
       if takeWhile is_word s5 = [] then []
       else (case strip '')'' (dropWhile is_space (dropWhile is_word s5)) of None \<Rightarrow> []
            | Some r \<Rightarrow> [(r, (2, takeWhile is_word s5) # g)])))"
proof -
  have r4: "rejects Space (Lit '')'')"
    by (rule rejects_lit) (simp add: is_space_def)
  have "rejects Word (Lit '')'')"
    by (rule rejects_lit) (simp add: is_word_def)
  then have r3: "rejects Word (Seq (Star Space) (Lit '')''))"
    by (rule rejects_seq_star[rotated]) (use space_not_word in auto)
  have r5: "rejects Space (Seq (Group 2 (Plus Word)) (Seq (Star Space) (Lit '')'')))"
    by (rule rejects_seq_group_plus) (auto simp: space_not_word)
  show ?thesis
    by (simp add: seq_lit seq_star[OF r5] seq_group_plus[OF r3] seq_star[OF r4] in_cls_eqs strip_def Let_def
        del: rx_all.simps(4))
qed

lemma pattern_all: "rx_all pattern (s, []) = (case match1 s of None \<Rightarrow> [] | Some x \<Rightarrow> [x])"
proof -
  define H where "H = Seq (Lit ''sqlx::query('') (Seq (Star Space)
            (Seq (Lit [CHR ''r'', CHR ''#'', dquote]) (Seq (Star NotDquote) (Lit [dquote, CHR ''#'']))))"
  define T where "T = Seq (Lit '','') (Seq (Star Space) (Seq (Group 2 (Plus Word)) (Seq (Star Space) (Lit '')''))))"
  have p: "pattern = Seq (Group 1 H) T"
    by (simp add: pattern_def H_def T_def)
  have "rx_all pattern (s, []) =
      concat (map (\<lambda>(r, g'). rx_all T (r, (1, take (length s - length r) s) # g')) (rx_all H (s, [])))"
    unfolding p by (simp add: comp_def case_prod_unfold)
  also have "\<dots> = (case match1 s of None \<Rightarrow> [] | Some x \<Rightarrow> [x])"
    unfolding H_def T_def pattern_head_all pattern_tail_all match1_def
    by (simp add: Let_def split: option.splits)
  finally show ?thesis .
qed

lemma count_list_0_iff: "count_list xs x = 0 \<longleftrightarrow> x \<notin> set xs"
  by (induction xs) auto

lemma strip_Some: "strip l s = Some r \<longleftrightarrow> s = l @ r"
  by (auto simp: strip_def prefix_def)

lemma strip_simps [simp]:
  "strip [] s = Some s"
  "strip (x # l) [] = None"
  "strip (x # l) (y # s) = (if x = y then strip l s else None)"
  by (auto simp: strip_def)

lemma strip_None: "strip l s = None \<longleftrightarrow> \<not> prefix l s"
  by (simp add: strip_def)

lemma strip_length: "strip l s = Some r \<Longrightarrow> length s = length l + length r"
  by (auto simp: strip_Some)

lemma pattern2_last_all:
  "rx_all (Seq (Lit ''.'') (Group 1 (Seq (Lit ''fetch_'') (Alt (Lit ''one'') (Lit ''all''))))) (s, g) =
   (case strip ''.fetch_'' s of None \<Rightarrow> [] | Some s3 \<Rightarrow>
   (case strip ''one'' s3 of Some r \<Rightarrow> [(r, (1, ''fetch_one'') # g)] | None \<Rightarrow>
   (case strip ''all'' s3 of Some r \<Rightarrow> [(r, (1, ''fetch_all'') # g)] | None \<Rightarrow> [])))"
proof (cases "prefix ''.fetch_'' s")
  case True
  then obtain t where t: "s = ''.fetch_'' @ t" by (auto simp: prefix_def)
  show ?thesis
  proof (cases "strip ''one'' t")
    case None
    show ?thesis
    proof (cases "strip ''all'' t")
      case None
      then have "\<not> prefix ''all'' t" by (simp add: strip_None)
      moreover have "\<not> prefix ''one'' t" using \<open>strip ''one'' t = None\<close> by (simp add: strip_None)
      ultimately show ?thesis using t None \<open>strip ''one'' t = None\<close> by simp
    next
      case (Some r)
      then have "t = ''all'' @ r" by (simp add: strip_Some)
      with t show ?thesis by simp
    qed
  next
    case (Some r)
    then have "t = ''one'' @ r" by (simp add: strip_Some)
    with t show ?thesis by simp
  qed
next
  case False
  then have "\<not> (prefix ''.'' s \<and> prefix ''fetch_'' (drop (Suc 0) s))"
    by (auto simp: prefix_def)
  with False show ?thesis by (auto simp: strip_def)
qed

lemma pattern2_all:
  "rx_all pattern2 (s, []) =
   (case strip '')'' s of None \<Rightarrow> [] | Some s1 \<Rightarrow>
     concat (replicate (count_list (takeWhile is_space s1) newline)
   (case strip '')'' (dropWhile is_space s1) of None \<Rightarrow> [] | Some s2 \<Rightarrow>
     concat (replicate (count_list (takeWhile is_space s2) newline)
       (rx_all (Seq (Lit ''.'') (Group 1 (Seq (Lit ''fetch_'') (Alt (Lit ''one'') (Lit ''all''))))) (dropWhile is_space s2, []))))))"
proof -
  define L where "L = Seq (Lit ''.'') (Group 1 (Seq (Lit ''fetch_'') (Alt (Lit ''one'') (Lit ''all''))))"
  define M where "M = Seq (Lit '')'') (Seq (Star Space) (Seq (Lit [newline]) (Seq (Star Space) L)))"
  have rL: "rejects Space L"
    unfolding L_def by (rule rejects_seq_lit) (simp add: is_space_def)
  have rM: "rejects Space M"
    unfolding M_def by (rule rejects_seq_lit) (simp add: is_space_def)
  have p: "pattern2 = Seq (Lit '')'') (Seq (Star Space) (Seq (Lit [newline]) (Seq (Star Space) M)))"
    by (simp add: pattern2_def M_def L_def)
  have M: "rx_all M (t, g) = (case strip '')'' t of None \<Rightarrow> [] | Some s2 \<Rightarrow>
     concat (replicate (count_list (takeWhile is_space s2) newline) (rx_all L (dropWhile is_space s2, g))))" for t g
    unfolding M_def seq_lit seq_star_nl_star[OF rL] by (simp add: strip_def)
  show ?thesis
    unfolding p seq_lit seq_star_nl_star[OF rM] M L_def by (simp add: strip_def)
qed

lemma strip_dropWhile_length: "strip l (dropWhile P s) = Some r \<Longrightarrow> length l + length r \<le> length s"
  using length_dropWhile_le[of P s] by (auto dest!: strip_length)

lemma match2_SomeD:
  assumes "match2 s = Some (r, g)"
  obtains s1 s2 s3 t where "strip '')'' s = Some s1" "newline \<in> set (takeWhile is_space s1)"
    "strip '')'' (dropWhile is_space s1) = Some s2" "newline \<in> set (takeWhile is_space s2)"
    "strip ''.fetch_'' (dropWhile is_space s2) = Some s3" "strip t s3 = Some r"
    "t = ''one'' \<or> t = ''all''" "g = [(1, ''fetch_'' @ t)]"
  using assms unfolding match2_def paren_line_def fetch_tail_def
  by (auto split: option.splits if_splits)

lemma match2_shorter:
  assumes "match2 s = Some (r, g)"
  shows "length r < length s"
proof -
  from assms obtain s1 s2 s3 t where "strip '')'' s = Some s1"
    "strip '')'' (dropWhile is_space s1) = Some s2"
    "strip ''.fetch_'' (dropWhile is_space s2) = Some s3" "strip t s3 = Some r"
    by (rule match2_SomeD)
  then have "length s = 1 + length s1" "1 + length s2 \<le> length s1" "7 + length s3 \<le> length s2"
    "length r \<le> length s3"
    by (auto dest: strip_dropWhile_length strip_length)
  then show ?thesis by simp
qed

lemma find_pattern2:
  "List.find P (rx_all pattern2 (s, [])) = (case match2 s of None \<Rightarrow> None | Some x \<Rightarrow> if P x then Some x else None)"
  unfolding pattern2_all pattern2_last_all match2_def paren_line_def fetch_tail_def
  by (auto simp: find_concat_replicate count_list_0_iff split: option.splits)

lemma rx_match_pattern2: "rx_match pattern2 adv s = match2 s"
  unfolding rx_match_def find_pattern2
  by (auto dest: match2_shorter split: option.splits)

lemma match1_SomeD:
  assumes "match1 s = Some (r, g)"
  obtains s1 s2 s3 s4 where "strip ''sqlx::query('' s = Some s1"
    "strip [CHR ''r'', CHR ''#'', dquote] (dropWhile is_space s1) = Some s2"
    "strip [dquote, CHR ''#''] (dropWhile (\<lambda>c. c \<noteq> dquote) s2) = Some s3"
    "strip '','' s3 = Some s4"
    "takeWhile is_word (dropWhile is_space s4) \<noteq> []"
    "strip '')'' (dropWhile is_space (dropWhile is_word (dropWhile is_space s4))) = Some r"
    "g = [(2, takeWhile is_word (dropWhile is_space s4)), (1, take (length s - length s3) s)]"
  using assms unfolding match1_def
  by (auto simp: Let_def split: option.splits if_splits)

lemma match1_shorter:
  assumes "match1 s = Some (r, g)"
  shows "length r < length s"
proof -
  from assms obtain s1 s2 s3 s4 where "strip ''sqlx::query('' s = Some s1"
    "strip [CHR ''r'', CHR ''#'', dquote] (dropWhile is_space s1) = Some s2"
    "strip [dquote, CHR ''#''] (dropWhile (\<lambda>c. c \<noteq> dquote) s2) = Some s3"
    "strip '','' s3 = Some s4"
    "strip '')'' (dropWhile is_space (dropWhile is_word (dropWhile is_space s4))) = Some r"
    by (rule match1_SomeD)
  then have "length s = 12 + length s1" "3 + length s2 \<le> length s1" "2 + length s3 \<le> length s2"
    "length s3 = 1 + length s4"
    "1 + length r \<le> length (dropWhile is_word (dropWhile is_space s4))"
    by (auto dest: strip_dropWhile_length strip_length)
  moreover have "length (dropWhile is_word (dropWhile is_space s4)) \<le> length s4"
    using length_dropWhile_le[of is_word "dropWhile is_space s4"] length_dropWhile_le[of is_space s4]
    by simp
  ultimately show ?thesis by simp
qed

lemma rx_match_pattern: "rx_match pattern adv s = match1 s"
  unfolding rx_match_def pattern_all
  by (auto dest: match1_shorter split: option.splits)

section \<open>Substitution when every match consumes text\<close>

text \<open>
  Neither pattern matches the empty text, so \<open>must_advance\<close> stays off and \<open>re_subn\<close> obeys
  the plain recursion: replace at a match and continue behind it, else copy one character.
\<close>

lemma advancing_pattern: "advancing pattern"
  by (auto simp: advancing_def rx_match_pattern dest: match1_shorter)

lemma advancing_pattern2: "advancing pattern2"
  by (auto simp: advancing_def rx_match_pattern2 dest: match2_shorter)

lemma re_subn_match:
  assumes "advancing p" "rx_match p False s = Some (r, g)"
  shows "re_subn p repl s = (repl g @ fst (re_subn p repl r), Suc (snd (re_subn p repl r)))"
proof -
  from assms have "length r < length s" unfolding advancing_def by blast
  then show ?thesis
    unfolding re_subn_def
    by (simp add: re_subn_from.simps[of p repl False s] assms(2) case_prod_unfold Let_def)
qed

lemma re_subn_Cons:
  assumes "rx_match p False (c # cs) = None"
  shows "re_subn p repl (c # cs) = (c # fst (re_subn p repl cs), snd (re_subn p repl cs))"
  unfolding re_subn_def
  by (simp add: re_subn_from.simps[of p repl False "c # cs"] assms case_prod_unfold Let_def)

lemma re_subn_Nil:
  assumes "advancing p"
  shows "re_subn p repl [] = ([], 0)"
proof -
  have "rx_match p False [] = None"
  proof (cases "rx_match p False []")
    case (Some x)
    then have "length (fst x) < length ([] :: string)"
      using assms unfolding advancing_def by (metis prod.collapse)
    then show ?thesis by simp
  qed
  then show ?thesis
    unfolding re_subn_def by (simp add: re_subn_from.simps[of p repl False "[]"])
qed

lemma re_subn_skip:
  assumes "\<forall>i<length a. rx_match p False (drop i (a @ b)) = None"
  shows "re_subn p repl (a @ b) = (a @ fst (re_subn p repl b), snd (re_subn p repl b))"
  using assms
proof (induction a)
  case Nil
  then show ?case by simp
next
  case (Cons c a)
  from Cons.prems[rule_format, of 0] have "rx_match p False (c # a @ b) = None" by simp
  moreover have "\<forall>i<length a. rx_match p False (drop i (a @ b)) = None"
  proof (intro allI impI)
    fix i assume "i < length a"
    then have "Suc i < length (c # a)" by simp
    from Cons.prems[rule_format, OF this] show "rx_match p False (drop i (a @ b)) = None" by simp
  qed
  ultimately show ?case using Cons.IH re_subn_Cons[of p c "a @ b" repl] by simp
qed

lemma set_match_starts:
  "set (match_starts p s) = {i. i \<le> length s \<and> rx_match p False (drop i s) \<noteq> None}"
  by (auto simp: match_starts_def simp del: upt_Suc)

lemma match_starts_Nil_iff:
  "match_starts p s = [] \<longleftrightarrow> (\<forall>i\<le>length s. rx_match p False (drop i s) = None)"
  unfolding match_starts_def filter_empty_conv
  by (simp only: set_upt atLeastLessThan_iff not_not less_Suc_eq_le le0 simp_thms Ball_def)

lemma re_subn_unchanged:
  assumes "advancing p" "match_starts p s = []"
  shows "re_subn p repl s = (s, 0)"
proof -
  from assms(2) have "\<forall>i<length s. rx_match p False (drop i (s @ [])) = None"
    by (simp add: match_starts_Nil_iff)
  from re_subn_skip[OF this, of repl] show ?thesis
    by (simp add: re_subn_Nil[OF assms(1)])
qed

lemma re_subn_append:
  assumes "advancing p"
    and "\<forall>i<length a. rx_match p False (drop i a @ b) =
           map_option (\<lambda>(r, g). (r @ b, g)) (rx_match p False (drop i a))"
  shows "re_subn p repl (a @ b) =
    (fst (re_subn p repl a) @ fst (re_subn p repl b), snd (re_subn p repl a) + snd (re_subn p repl b))"
  using assms(2)
proof (induction "length a" arbitrary: a rule: less_induct)
  case less
  show ?case
  proof (cases a)
    case Nil
    then show ?thesis by (simp add: re_subn_Nil[OF assms(1)])
  next
    case (Cons c cs)
    from less.prems[rule_format, of 0] Cons have m: "rx_match p False (a @ b) =
           map_option (\<lambda>(r, g). (r @ b, g)) (rx_match p False a)"
      by simp
    show ?thesis
    proof (cases "rx_match p False a")
      case None
      have "\<forall>i<length cs. rx_match p False (drop i cs @ b) =
           map_option (\<lambda>(r, g). (r @ b, g)) (rx_match p False (drop i cs))"
      proof (intro allI impI)
        fix i assume "i < length cs"
        then have "Suc i < length a" using Cons by simp
        from less.prems[rule_format, OF this] show "rx_match p False (drop i cs @ b) =
           map_option (\<lambda>(r, g). (r @ b, g)) (rx_match p False (drop i cs))"
          using Cons by simp
      qed
      then have "re_subn p repl (cs @ b) =
        (fst (re_subn p repl cs) @ fst (re_subn p repl b), snd (re_subn p repl cs) + snd (re_subn p repl b))"
        using less.hyps[of cs] Cons by simp
      moreover have "rx_match p False (c # cs) = None" "rx_match p False (c # cs @ b) = None"
        using None m Cons by simp_all
      ultimately show ?thesis
        using Cons re_subn_Cons[of p c cs repl] re_subn_Cons[of p c "cs @ b" repl] by simp
    next
      case (Some x)
      then obtain r g where x: "rx_match p False a = Some (r, g)" by (cases x) auto
      then have suf: "suffix r a" and len: "length r < length a"
        using assms(1) by (auto simp: advancing_def dest: rx_match_suffix)
      then obtain u where u: "a = u @ r" by (auto simp: suffix_def)
      have "\<forall>i<length r. rx_match p False (drop i r @ b) =
           map_option (\<lambda>(r, g). (r @ b, g)) (rx_match p False (drop i r))"
      proof (intro allI impI)
        fix i assume "i < length r"
        then have "length u + i < length a" using u by simp
        from less.prems[rule_format, OF this] show "rx_match p False (drop i r @ b) =
           map_option (\<lambda>(r, g). (r @ b, g)) (rx_match p False (drop i r))"
          using u by simp
      qed
      then have "re_subn p repl (r @ b) =
        (fst (re_subn p repl r) @ fst (re_subn p repl b), snd (re_subn p repl r) + snd (re_subn p repl b))"
        using less.hyps[of r] len by simp
      moreover have "rx_match p False (a @ b) = Some (r @ b, g)" using m x by simp
      ultimately show ?thesis
        using re_subn_match[OF assms(1) x, of repl]
          re_subn_match[OF assms(1) \<open>rx_match p False (a @ b) = Some (r @ b, g)\<close>, of repl]
        by simp
    qed
  qed
qed

section \<open>The texts the two patterns match\<close>

lemma takeWhile_app: "list_all P a \<Longrightarrow> b = [] \<or> \<not> P (hd b) \<Longrightarrow> takeWhile P (a @ b) = a"
  by (cases b) (auto simp: list_all_iff takeWhile_tail)

lemma dropWhile_app: "list_all P a \<Longrightarrow> b = [] \<or> \<not> P (hd b) \<Longrightarrow> dropWhile P (a @ b) = b"
  by (cases b) (auto simp: list_all_iff dropWhile_append3)

lemma char_facts [simp]:
  "\<not> is_space CHR ''r''" "\<not> is_space CHR '')''" "\<not> is_space CHR ''.''" "\<not> is_word CHR '')''"
  "\<not> is_word CHR ''.''" "\<not> is_word dquote" "\<not> is_space dquote" "is_space newline"
  "is_space CHR '' ''" "\<not> is_space CHR '',''" "\<not> is_word CHR '',''"
  "dquote \<noteq> CHR ''#''" "dquote \<noteq> CHR ''r''" "dquote \<noteq> CHR '')''" "dquote \<noteq> CHR '',''"
  "newline \<noteq> CHR '')''" "newline \<noteq> CHR ''.''" "newline \<noteq> CHR '' ''" "dquote \<noteq> CHR ''.''"
  by (simp_all add: is_space_def is_word_def dquote_def newline_def)

lemma match1_site:
  assumes "well_formed ws1 body ws2 param ws3"
  shows "match1 (call_site ws1 body ws2 param ws3 @ r) = Some (r, [(2, param), (1, call_head ws1 body)])"
proof -
  from assms have ws1: "list_all is_space ws1" and body: "list_all (\<lambda>c. c \<noteq> dquote) body"
    and ws2: "list_all is_space ws2" and param: "param \<noteq> []" "list_all is_word param"
    and ws3: "list_all is_space ws3"
    by (auto simp: well_formed_def list_all_iff)
  have nw: "ws3 @ CHR '')'' # r = [] \<or> \<not> is_word (hd (ws3 @ CHR '')'' # r))"
    using ws3 by (cases ws3) (auto simp: space_not_word)
  have a: "dropWhile is_space (ws1 @ CHR ''r'' # x) = CHR ''r'' # x" for x
    using dropWhile_app[OF ws1, of "CHR ''r'' # x"] by simp
  have b: "dropWhile (\<lambda>c. c \<noteq> dquote) (body @ dquote # x) = dquote # x" for x
    using dropWhile_app[OF body, of "dquote # x"] by simp
  have "\<not> is_space (hd param)"
    using param by (cases param) (auto simp: space_not_word)
  then have c: "dropWhile is_space (ws2 @ param @ x) = param @ x" for x
    using dropWhile_app[OF ws2, of "param @ x"] param(1) by simp
  have d: "takeWhile is_word (param @ ws3 @ CHR '')'' # r) = param"
    "dropWhile is_word (param @ ws3 @ CHR '')'' # r) = ws3 @ CHR '')'' # r"
    using takeWhile_app[OF param(2) nw] dropWhile_app[OF param(2) nw] by simp_all
  have e: "dropWhile is_space (ws3 @ CHR '')'' # r) = CHR '')'' # r"
    using dropWhile_app[OF ws3, of "CHR '')'' # r"] by simp
  define s3 where "s3 = '','' @ ws2 @ param @ ws3 @ '')'' @ r"
  define s where "s = call_site ws1 body ws2 param ws3 @ r"
  have s: "s = call_head ws1 body @ s3"
    by (simp add: s_def s3_def call_site_def)
  have 1: "strip ''sqlx::query('' s = Some (ws1 @ [CHR ''r'', CHR ''#'', dquote] @ body @ [dquote, CHR ''#''] @ s3)"
    by (simp add: s call_head_def)
  have 2: "strip [CHR ''r'', CHR ''#'', dquote]
      (dropWhile is_space (ws1 @ [CHR ''r'', CHR ''#'', dquote] @ body @ [dquote, CHR ''#''] @ s3)) =
      Some (body @ [dquote, CHR ''#''] @ s3)"
    by (simp add: a)
  have 3: "strip [dquote, CHR ''#''] (dropWhile (\<lambda>c. c \<noteq> dquote) (body @ [dquote, CHR ''#''] @ s3)) = Some s3"
    by (simp add: b)
  have 4: "strip '','' s3 = Some (ws2 @ param @ ws3 @ '')'' @ r)"
    by (simp add: s3_def)
  have 5: "dropWhile is_space (ws2 @ param @ ws3 @ '')'' @ r) = param @ ws3 @ '')'' @ r"
    by (simp add: c)
  have 6: "strip '')'' (dropWhile is_space (dropWhile is_word (param @ ws3 @ '')'' @ r))) = Some r"
    by (simp add: d e)
  have 7: "takeWhile is_word (param @ ws3 @ '')'' @ r) = param"
    by (simp add: d)
  have 8: "take (length s - length s3) s = call_head ws1 body"
    by (simp add: s)
  show ?thesis
    unfolding s_def[symmetric] match1_def
    by (simp only: 1 2 3 4 5 6 7 8 option.case Let_def param(1) if_False)
qed

lemma match1_shape:
  assumes "match1 s = Some (r, g)"
  shows "\<exists>ws1 body ws2 param ws3. well_formed ws1 body ws2 param ws3 \<and>
    s = call_site ws1 body ws2 param ws3 @ r \<and> g = [(2, param), (1, call_head ws1 body)]"
proof -
  from assms obtain s1 s2 s3 s4 where s: "strip ''sqlx::query('' s = Some s1"
    "strip [CHR ''r'', CHR ''#'', dquote] (dropWhile is_space s1) = Some s2"
    "strip [dquote, CHR ''#''] (dropWhile (\<lambda>c. c \<noteq> dquote) s2) = Some s3"
    "strip '','' s3 = Some s4"
    "takeWhile is_word (dropWhile is_space s4) \<noteq> []"
    "strip '')'' (dropWhile is_space (dropWhile is_word (dropWhile is_space s4))) = Some r"
    "g = [(2, takeWhile is_word (dropWhile is_space s4)), (1, take (length s - length s3) s)]"
    by (rule match1_SomeD)
  define ws1 where "ws1 = takeWhile is_space s1"
  define body where "body = takeWhile (\<lambda>c. c \<noteq> dquote) s2"
  define ws2 where "ws2 = takeWhile is_space s4"
  define param where "param = takeWhile is_word (dropWhile is_space s4)"
  define ws3 where "ws3 = takeWhile is_space (dropWhile is_word (dropWhile is_space s4))"
  have 1: "s = ''sqlx::query('' @ s1" using s(1) by (simp add: strip_Some)
  have 2: "s1 = ws1 @ [CHR ''r'', CHR ''#'', dquote] @ s2"
    using s(2) takeWhile_dropWhile_id[of is_space s1] by (simp add: strip_Some ws1_def)
  have 3: "s2 = body @ [dquote, CHR ''#''] @ s3"
    using s(3) takeWhile_dropWhile_id[of "\<lambda>c. c \<noteq> dquote" s2] by (simp add: strip_Some body_def)
  have 4: "s3 = '','' @ s4" using s(4) by (simp add: strip_Some)
  have 5: "s4 = ws2 @ param @ ws3 @ '')'' @ r"
    using s(6) takeWhile_dropWhile_id[of is_space s4]
      takeWhile_dropWhile_id[of is_word "dropWhile is_space s4"]
      takeWhile_dropWhile_id[of is_space "dropWhile is_word (dropWhile is_space s4)"]
    by (simp add: strip_Some ws2_def param_def ws3_def)
  have wf: "well_formed ws1 body ws2 param ws3"
    using s(5) unfolding well_formed_def ws1_def body_def ws2_def param_def ws3_def
    by (auto simp: list_all_iff dest: set_takeWhileD)
  have "s = call_site ws1 body ws2 param ws3 @ r"
    unfolding call_site_def call_head_def using 1 2 3 4 5 by simp
  moreover have "take (length s - length s3) s = call_head ws1 body"
  proof -
    have "s = call_head ws1 body @ s3"
      unfolding call_head_def using 1 2 3 by simp
    then show ?thesis by simp
  qed
  ultimately show ?thesis using wf s(7) param_def by blast
qed

lemma replace_query_bound: "replace_query [(2, param), (1, call_head ws1 body)] = bound_call ws1 body param"
  by (simp add: replace_query_def bound_call_def group_def fmt_def)

lemma match2_site:
  assumes "cleanup_ok w1 w2 t"
  shows "match2 (cleanup_site w1 w2 t @ r) = Some (r, [(1, t)])"
proof -
  from assms have w1: "list_all is_space w1" "newline \<in> set w1" and w2: "list_all is_space w2" "newline \<in> set w2"
    and t: "t = ''fetch_one'' \<or> t = ''fetch_all''"
    by (auto simp: cleanup_ok_def)
  have a: "dropWhile is_space (w1 @ CHR '')'' # x) = CHR '')'' # x"
    "takeWhile is_space (w1 @ CHR '')'' # x) = w1" for x
    using dropWhile_app[OF w1(1), of "CHR '')'' # x"] takeWhile_app[OF w1(1), of "CHR '')'' # x"] by simp_all
  have b: "dropWhile is_space (w2 @ CHR ''.'' # x) = CHR ''.'' # x"
    "takeWhile is_space (w2 @ CHR ''.'' # x) = w2" for x
    using dropWhile_app[OF w2(1), of "CHR ''.'' # x"] takeWhile_app[OF w2(1), of "CHR ''.'' # x"] by simp_all
  show ?thesis
    using t w1(2) w2(2) by (auto simp: match2_def paren_line_def fetch_tail_def cleanup_site_def a b)
qed

lemma match2_shape:
  assumes "match2 s = Some (r, g)"
  shows "\<exists>w1 w2 t. cleanup_ok w1 w2 t \<and> s = cleanup_site w1 w2 t @ r \<and> g = [(1, t)]"
proof -
  from assms obtain s1 s2 s3 t where s: "strip '')'' s = Some s1" "newline \<in> set (takeWhile is_space s1)"
    "strip '')'' (dropWhile is_space s1) = Some s2" "newline \<in> set (takeWhile is_space s2)"
    "strip ''.fetch_'' (dropWhile is_space s2) = Some s3" "strip t s3 = Some r"
    "t = ''one'' \<or> t = ''all''" "g = [(1, ''fetch_'' @ t)]"
    by (rule match2_SomeD)
  define w1 where "w1 = takeWhile is_space s1"
  define w2 where "w2 = takeWhile is_space s2"
  have 1: "s = '')'' @ s1" using s(1) by (simp add: strip_Some)
  have 2: "s1 = w1 @ '')'' @ s2"
    using s(3) takeWhile_dropWhile_id[of is_space s1] by (simp add: strip_Some w1_def)
  have 3: "s2 = w2 @ ''.fetch_'' @ s3"
    using s(5) takeWhile_dropWhile_id[of is_space s2] by (simp add: strip_Some w2_def)
  have 4: "s3 = t @ r" using s(6) by (simp add: strip_Some)
  have "cleanup_ok w1 w2 (''fetch_'' @ t)"
    using s(2,4,7) unfolding cleanup_ok_def w1_def w2_def
    by (auto simp: list_all_iff dest: set_takeWhileD)
  moreover have "s = cleanup_site w1 w2 (''fetch_'' @ t) @ r"
    unfolding cleanup_site_def using 1 2 3 4 by simp
  ultimately show ?thesis using s(8) by blast
qed

lemma expand_collapsed: "expand template2 [(1, t)] = collapsed t"
  by (simp add: template2_def collapsed_def group_def)

section \<open>Counting the marker\<close>

text \<open>
  \<open>count_str m\<close> is additive over \<open>a @ b\<close> when no occurrence of \<open>m\<close> can lie across the
  join. Matched texts and their replacements start and end with characters that no
  occurrence of \<open>.bind(\<close> can run across, which gives the count after a substitution.
\<close>

lemma prefix_append_safe:
  assumes "safe_join m a b" "a \<noteq> []"
  shows "prefix m (a @ b) \<longleftrightarrow> prefix m a"
proof
  assume "prefix m (a @ b)"
  then consider "prefix m a" | us where "m = a @ us" "prefix us b"
    by (auto simp: prefix_append)
  then show "prefix m a"
  proof cases
    case 1
    then show ?thesis .
  next
    case 2
    show ?thesis
    proof (cases "us = []")
      case True
      with 2 show ?thesis by simp
    next
      case False
      with 2 have "b \<noteq> []" "hd b = hd us" by (auto simp: prefix_def)
      moreover have "hd us \<in> set (tl m)" using 2 False assms(2) by (cases a) auto
      moreover have "last a \<in> set (butlast m)" using 2 False assms(2) by (simp add: butlast_append)
      ultimately show ?thesis using assms by (auto simp: safe_join_def)
    qed
  qed
next
  assume "prefix m a"
  then show "prefix m (a @ b)" by (rule prefix_prefix)
qed

lemma count_str_append:
  assumes "m \<noteq> []" "safe_join m a b"
  shows "count_str m (a @ b) = count_str m a + count_str m b"
  using assms(2)
proof (induction "length a" arbitrary: a rule: less_induct)
  case less
  show ?case
  proof (cases a)
    case Nil
    then show ?thesis using assms(1) by simp
  next
    case (Cons c cs)
    then have ne: "a \<noteq> []" by simp
    note pre = prefix_append_safe[OF less.prems ne]
    show ?thesis
    proof (cases "prefix m a")
      case True
      then have len: "length m - 1 \<le> length cs" using Cons by (auto dest: prefix_length_le)
      define a' where "a' = drop (length m - 1) cs"
      have "suffix a' a" unfolding a'_def Cons by (simp add: suffix_drop suffix_ConsI)
      then have "a' \<noteq> [] \<Longrightarrow> last a' = last a"
        by (auto simp: suffix_def)
      then have "safe_join m a' b" using less.prems ne by (auto simp: safe_join_def)
      moreover have "length a' < length a" unfolding a'_def Cons by simp
      ultimately have "count_str m (a' @ b) = count_str m a' + count_str m b"
        using less.hyps by blast
      moreover have "drop (length m - 1) (cs @ b) = a' @ b" using len by (simp add: a'_def)
      ultimately show ?thesis using True pre Cons by (simp add: a'_def)
    next
      case False
      have "cs \<noteq> [] \<Longrightarrow> last cs = last a" using Cons by simp
      then have "safe_join m cs b" using less.prems ne by (auto simp: safe_join_def)
      then have "count_str m (cs @ b) = count_str m cs + count_str m b"
        using less.hyps[of cs] Cons by simp
      then show ?thesis using False pre Cons by simp
    qed
  qed
qed

lemma count_str_absent:
  assumes "m \<noteq> []" "hd m \<notin> set s"
  shows "count_str m s = 0"
  using assms
proof (induction s)
  case Nil
  then show ?case by simp
next
  case (Cons c s)
  then have "\<not> prefix m (c # s)" by (cases m) auto
  with Cons show ?case by simp
qed

lemma count_re_subn:
  assumes adv: "advancing p" and m: "m \<noteq> []"
    and shape: "\<And>s r g. rx_match p False s = Some (r, g) \<Longrightarrow>
      \<exists>mt. s = mt @ r \<and> mt \<noteq> [] \<and> hd mt \<notin> set (tl m) \<and> last mt \<notin> set (butlast m) \<and>
        repl g \<noteq> [] \<and> hd (repl g) \<notin> set (tl m) \<and> last (repl g) \<notin> set (butlast m) \<and>
        count_str m (repl g) = count_str m mt + d"
  shows "count_str m (k @ fst (re_subn p repl s)) = count_str m (k @ s) + d * snd (re_subn p repl s)"
proof (induction "length s" arbitrary: s k rule: less_induct)
  case less
  show ?case
  proof (cases "rx_match p False s")
    case None
    show ?thesis
    proof (cases s)
      case Nil
      then show ?thesis by (simp add: re_subn_Nil[OF adv])
    next
      case (Cons c cs)
      have "count_str m ((k @ [c]) @ fst (re_subn p repl cs)) =
        count_str m ((k @ [c]) @ cs) + d * snd (re_subn p repl cs)"
        using less.hyps[of cs "k @ [c]"] Cons by simp
      then show ?thesis using None Cons re_subn_Cons[of p c cs repl] by simp
    qed
  next
    case (Some x)
    then obtain r g where x: "rx_match p False s = Some (r, g)" by (cases x) auto
    from shape[OF x] obtain mt where mt: "s = mt @ r" "mt \<noteq> []" "hd mt \<notin> set (tl m)"
      "last mt \<notin> set (butlast m)" "repl g \<noteq> []" "hd (repl g) \<notin> set (tl m)"
      "last (repl g) \<notin> set (butlast m)" "count_str m (repl g) = count_str m mt + d"
      by blast
    let ?o = "fst (re_subn p repl r)"
    have ih: "count_str m ?o = count_str m r + d * snd (re_subn p repl r)"
      using less.hyps[of r "[]"] mt(1,2) by simp
    have "count_str m (k @ repl g @ ?o) = count_str m k + count_str m (repl g @ ?o)"
      by (rule count_str_append[OF m]) (use mt in \<open>auto simp: safe_join_def\<close>)
    also have "count_str m (repl g @ ?o) = count_str m (repl g) + count_str m ?o"
      by (rule count_str_append[OF m]) (use mt in \<open>auto simp: safe_join_def\<close>)
    finally have l: "count_str m (k @ repl g @ ?o) =
      count_str m k + count_str m mt + d + count_str m r + d * snd (re_subn p repl r)"
      using ih mt(8) by simp
    have "count_str m (k @ mt @ r) = count_str m k + count_str m (mt @ r)"
      by (rule count_str_append[OF m]) (use mt in \<open>auto simp: safe_join_def\<close>)
    also have "count_str m (mt @ r) = count_str m mt + count_str m r"
      by (rule count_str_append[OF m]) (use mt in \<open>auto simp: safe_join_def\<close>)
    finally have r: "count_str m (k @ s) = count_str m k + count_str m mt + count_str m r"
      using mt(1) by simp
    show ?thesis
      using l r re_subn_match[OF adv x, of repl] by simp
  qed
qed

lemma dot_facts: "\<not> is_space CHR ''.''" "\<not> is_word CHR ''.''"
  by (simp_all add: is_space_def is_word_def)

lemma class_absent:
  "list_all is_space w \<Longrightarrow> CHR ''.'' \<notin> set w"
  "list_all is_word w \<Longrightarrow> CHR ''.'' \<notin> set w"
  using dot_facts by (auto simp: list_all_iff)

lemma count_call_parts:
  assumes "well_formed ws1 body ws2 param ws3"
  shows "count_str ''.bind('' (call_site ws1 body ws2 param ws3) = count_str ''.bind('' body"
    and "count_str ''.bind('' (bound_call ws1 body param) = Suc (count_str ''.bind('' body)"
proof -
  from assms have ws: "CHR ''.'' \<notin> set ws1" "CHR ''.'' \<notin> set ws2" "CHR ''.'' \<notin> set param" "CHR ''.'' \<notin> set ws3"
    by (auto simp: well_formed_def class_absent)
  define A where "A = ''sqlx::query('' @ ws1 @ [CHR ''r'', CHR ''#'', dquote]"
  define B where "B = [dquote, CHR ''#''] @ '','' @ ws2 @ param @ ws3 @ '')''"
  define C1 where "C1 = [dquote, CHR ''#''] @ '')'' @ [newline] @ ''        ''"
  define C2 where "C2 = ''.bind('' @ param @ '')''"
  have m: "''.bind('' \<noteq> []" by simp
  have A0: "count_str ''.bind('' A = 0"
    by (rule count_str_absent) (use ws in \<open>auto simp: A_def dquote_def\<close>)
  have B0: "count_str ''.bind('' B = 0"
    by (rule count_str_absent) (use ws in \<open>auto simp: B_def dquote_def\<close>)
  have C10: "count_str ''.bind('' C1 = 0"
    by (rule count_str_absent) (auto simp: C1_def dquote_def newline_def)
  have "count_str ''.bind('' (param @ '')'') = 0"
    by (rule count_str_absent) (use ws in auto)
  then have C21: "count_str ''.bind('' C2 = 1"
    by (simp add: C2_def)
  have jA: "safe_join ''.bind('' A x" for x
    by (simp add: safe_join_def A_def dquote_def)
  have jB: "safe_join ''.bind('' x B" for x
    by (simp add: safe_join_def B_def dquote_def)
  have jC1: "safe_join ''.bind('' x (C1 @ C2)" for x
    by (simp add: safe_join_def C1_def C2_def dquote_def)
  have jC2: "safe_join ''.bind('' C1 C2"
    by (simp add: safe_join_def C1_def C2_def dquote_def)
  have "call_site ws1 body ws2 param ws3 = A @ body @ B"
    by (simp add: call_site_def call_head_def A_def B_def)
  then show "count_str ''.bind('' (call_site ws1 body ws2 param ws3) = count_str ''.bind('' body"
    by (simp add: count_str_append[OF m jA] count_str_append[OF m jB] A0 B0)
  have "bound_call ws1 body param = A @ body @ C1 @ C2"
    by (simp add: bound_call_def call_head_def A_def C1_def C2_def)
  moreover have "count_str ''.bind('' (A @ body @ C1 @ C2) = count_str ''.bind('' A + count_str ''.bind('' (body @ C1 @ C2)"
    by (rule count_str_append[OF m jA])
  moreover have "count_str ''.bind('' (body @ C1 @ C2) = count_str ''.bind('' body + count_str ''.bind('' (C1 @ C2)"
    by (rule count_str_append[OF m jC1])
  moreover have "count_str ''.bind('' (C1 @ C2) = count_str ''.bind('' C1 + count_str ''.bind('' C2"
    by (rule count_str_append[OF m jC2])
  ultimately show "count_str ''.bind('' (bound_call ws1 body param) = Suc (count_str ''.bind('' body)"
    using A0 C10 C21 by simp
qed

lemma call_ends:
  "call_site ws1 body ws2 param ws3 \<noteq> []" "hd (call_site ws1 body ws2 param ws3) = CHR ''s''"
  "last (call_site ws1 body ws2 param ws3) = CHR '')''"
  "bound_call ws1 body param \<noteq> []" "hd (bound_call ws1 body param) = CHR ''s''"
  "last (bound_call ws1 body param) = CHR '')''"
  by (simp_all add: call_site_def bound_call_def call_head_def)

lemma count_step1:
  "count_str ''.bind('' (k @ step1 s) = count_str ''.bind('' (k @ s) + snd (re_subn pattern replace_query s)"
proof -
  have "count_str ''.bind('' (k @ fst (re_subn pattern replace_query s)) =
    count_str ''.bind('' (k @ s) + 1 * snd (re_subn pattern replace_query s)"
  proof (rule count_re_subn[OF advancing_pattern])
    show "''.bind('' \<noteq> []" by simp
  next
    fix s r g
    assume "rx_match pattern False s = Some (r, g)"
    then have "match1 s = Some (r, g)" by (simp add: rx_match_pattern)
    from match1_shape[OF this]
    obtain ws1 body ws2 param ws3 where wf: "well_formed ws1 body ws2 param ws3"
      and s: "s = call_site ws1 body ws2 param ws3 @ r" and g: "g = [(2, param), (1, call_head ws1 body)]"
      by blast
    show "\<exists>mt. s = mt @ r \<and> mt \<noteq> [] \<and> hd mt \<notin> set (tl ''.bind('' ) \<and> last mt \<notin> set (butlast ''.bind('' ) \<and>
        replace_query g \<noteq> [] \<and> hd (replace_query g) \<notin> set (tl ''.bind('' ) \<and>
        last (replace_query g) \<notin> set (butlast ''.bind('' ) \<and>
        count_str ''.bind('' (replace_query g) = count_str ''.bind('' mt + 1"
      unfolding g replace_query_bound
      by (rule exI[of _ "call_site ws1 body ws2 param ws3"])
        (simp add: s call_ends count_call_parts[OF wf])
  qed
  then show ?thesis by (simp add: step1_def re_sub_def)
qed

lemma count_cleanup_parts:
  assumes "cleanup_ok w1 w2 t"
  shows "count_str ''.bind('' (cleanup_site w1 w2 t) = 0" and "count_str ''.bind('' (collapsed t) = 0"
proof -
  from assms have ws: "CHR ''.'' \<notin> set w1" "CHR ''.'' \<notin> set w2" and t: "t = ''fetch_one'' \<or> t = ''fetch_all''"
    by (auto simp: cleanup_ok_def class_absent)
  have m: "''.bind('' \<noteq> []" by simp
  have t0: "count_str ''.bind('' (''.'' @ t) = 0" using t by auto
  have A0: "count_str ''.bind('' ('')'' @ w1 @ '')'' @ w2) = 0"
    by (rule count_str_absent) (use ws in auto)
  have B0: "count_str ''.bind('' ('')'' @ [newline] @ ''        '') = 0"
    by (rule count_str_absent) (auto simp: newline_def)
  have j: "safe_join ''.bind('' x (''.'' @ t)" for x
    by (simp add: safe_join_def)
  have "cleanup_site w1 w2 t = ('')'' @ w1 @ '')'' @ w2) @ (''.'' @ t)"
    by (simp add: cleanup_site_def)
  then show "count_str ''.bind('' (cleanup_site w1 w2 t) = 0"
    by (simp only: count_str_append[OF m j] A0 t0)
  have "collapsed t = ('')'' @ [newline] @ ''        '') @ (''.'' @ t)"
    by (simp add: collapsed_def)
  then show "count_str ''.bind('' (collapsed t) = 0"
    by (simp only: count_str_append[OF m j] B0 t0)
qed

lemma cleanup_ends:
  assumes "cleanup_ok w1 w2 t"
  shows "cleanup_site w1 w2 t \<noteq> []" "hd (cleanup_site w1 w2 t) = CHR '')''"
    "last (cleanup_site w1 w2 t) \<notin> set ''.bind''"
    "collapsed t \<noteq> []" "hd (collapsed t) = CHR '')''" "last (collapsed t) \<notin> set ''.bind''"
  using assms by (auto simp: cleanup_ok_def cleanup_site_def collapsed_def)

lemma count_step2:
  "count_str ''.bind('' (k @ step2 s) = count_str ''.bind('' (k @ s)"
proof -
  have "count_str ''.bind('' (k @ fst (re_subn pattern2 (expand template2) s)) =
    count_str ''.bind('' (k @ s) + 0 * snd (re_subn pattern2 (expand template2) s)"
  proof (rule count_re_subn[OF advancing_pattern2])
    show "''.bind('' \<noteq> []" by simp
  next
    fix s r g
    assume "rx_match pattern2 False s = Some (r, g)"
    then have "match2 s = Some (r, g)" by (simp add: rx_match_pattern2)
    from match2_shape[OF this]
    obtain w1 w2 t where ok: "cleanup_ok w1 w2 t"
      and s: "s = cleanup_site w1 w2 t @ r" and g: "g = [(1, t)]"
      by blast
    show "\<exists>mt. s = mt @ r \<and> mt \<noteq> [] \<and> hd mt \<notin> set (tl ''.bind('' ) \<and> last mt \<notin> set (butlast ''.bind('' ) \<and>
        expand template2 g \<noteq> [] \<and> hd (expand template2 g) \<notin> set (tl ''.bind('' ) \<and>
        last (expand template2 g) \<notin> set (butlast ''.bind('' ) \<and>
        count_str ''.bind('' (expand template2 g) = count_str ''.bind('' mt + 0"
      unfolding g expand_collapsed
      using cleanup_ends[OF ok] count_cleanup_parts[OF ok]
      by (intro exI[of _ "cleanup_site w1 w2 t"]) (simp add: s)
  qed
  then show ?thesis by (simp add: step2_def re_sub_def)
qed

lemma rewrite_eq: "rewrite s = (step2 (step1 s), count_str ''.bind('' (step2 (step1 s)))"
  by (simp add: rewrite_def Let_def)

section \<open>Further facts for the claims\<close>

lemma backup_path_neq: "backup_path \<noteq> file_path" "file_path \<noteq> backup_path"
  by (simp_all add: backup_path_def)

text \<open>
  A match of the Step-2 pattern does not depend on the text behind it, and text that starts
  with a character the pattern cannot use, or with a cleanup site, cannot extend a match
  that starts before it.
\<close>

lemma strip_ctx: "c \<notin> set l \<Longrightarrow> strip l (a @ c # y) = map_option (\<lambda>r. r @ c # y) (strip l a)"
proof (induction l arbitrary: a)
  case Nil
  then show ?case by simp
next
  case (Cons x l)
  then show ?case by (cases a) auto
qed

lemma strip_ctx_ne: "a \<noteq> [] \<Longrightarrow> strip [x] (a @ z) = map_option (\<lambda>r. r @ z) (strip [x] a)"
  by (cases a) auto

lemma fetch_tail_ctx:
  assumes "c \<notin> set ''.fetch_onal''"
  shows "fetch_tail (x @ c # y) = map_option (\<lambda>(r, g). (r @ c # y, g)) (fetch_tail x)"
proof -
  have a: "strip ''.fetch_'' (x @ c # y) = map_option (\<lambda>r. r @ c # y) (strip ''.fetch_'' x)" for x
    by (rule strip_ctx) (use assms in auto)
  have b: "strip ''one'' (x @ c # y) = map_option (\<lambda>r. r @ c # y) (strip ''one'' x)" for x
    by (rule strip_ctx) (use assms in auto)
  have d: "strip ''all'' (x @ c # y) = map_option (\<lambda>r. r @ c # y) (strip ''all'' x)" for x
    by (rule strip_ctx) (use assms in auto)
  show ?thesis
    by (simp add: fetch_tail_def a b d split: option.splits)
qed

lemma paren_line_ctx:
  assumes k: "\<And>x. k (x @ c # y) = map_option (\<lambda>(r, g). (r @ c # y, g)) (k x)"
    and c: "\<not> is_space c" and a: "a \<noteq> [] \<or> c \<noteq> CHR '')''"
  shows "paren_line k (a @ c # y) = map_option (\<lambda>(r, g). (r @ c # y, g)) (paren_line k a)"
proof -
  have s: "strip '')'' (a @ c # y) = map_option (\<lambda>r. r @ c # y) (strip '')'' a)"
    using a strip_ctx_ne[of a "CHR '')''" "c # y"] strip_ctx[of c "'')''" a y] by auto
  show ?thesis
    by (simp add: paren_line_def s k takeWhile_tail[where P=is_space and x=c, OF c]
        dropWhile_append3[where P=is_space and y=c, OF c] split: option.splits)
qed

lemma match2_inert:
  assumes "\<not> is_space c" "c \<notin> set '').fetch_onal''"
  shows "match2 (t @ c # y) = map_option (\<lambda>(r, g). (r @ c # y, g)) (match2 t)"
proof -
  have t: "c \<notin> set ''.fetch_onal''" "c \<noteq> CHR '')''" using assms by auto
  show ?thesis
    unfolding match2_def
    by (intro paren_line_ctx fetch_tail_ctx t assms(1) disjI2)
qed

lemma match2_before_site:
  assumes "t \<noteq> []" "list_all is_space w1"
  shows "match2 (t @ CHR '')'' # w1 @ CHR '')'' # y) =
    map_option (\<lambda>(r, g). (r @ CHR '')'' # w1 @ CHR '')'' # y, g)) (match2 t)"
proof -
  define B where "B = w1 @ CHR '')'' # y"
  have B: "takeWhile is_space B = w1" "dropWhile is_space B = CHR '')'' # y"
    using takeWhile_app[OF assms(2), of "CHR '')'' # y"] dropWhile_app[OF assms(2), of "CHR '')'' # y"]
    by (simp_all add: B_def)
  have inner: "paren_line fetch_tail (x @ CHR '')'' # B) =
    map_option (\<lambda>(r, g). (r @ CHR '')'' # B, g)) (paren_line fetch_tail x)" for x
  proof (cases "x = []")
    case True
    then show ?thesis by (simp add: paren_line_def B fetch_tail_def)
  next
    case False
    show ?thesis
      by (rule paren_line_ctx) (use False in \<open>auto intro: fetch_tail_ctx\<close>)
  qed
  have "match2 (t @ CHR '')'' # B) = map_option (\<lambda>(r, g). (r @ CHR '')'' # B, g)) (match2 t)"
    unfolding match2_def by (rule paren_line_ctx) (use assms(1) inner in auto)
  then show ?thesis by (simp add: B_def)
qed

lemma match_none_at:
  "i \<notin> set (match_starts p s) \<Longrightarrow> i \<le> length s \<Longrightarrow> rx_match p False (drop i s) = None"
  by (cases "rx_match p False (drop i s)") (auto simp: set_match_starts)

lemma match_starts_tail:
  assumes "\<forall>i\<in>set (match_starts p (u @ v)). i < length u"
  shows "match_starts p v = []"
  unfolding match_starts_Nil_iff
proof (intro allI impI)
  fix j assume "j \<le> length v"
  then have "length u + j \<le> length (u @ v)" by simp
  moreover have "length u + j \<notin> set (match_starts p (u @ v))" using assms by auto
  ultimately have "rx_match p False (drop (length u + j) (u @ v)) = None"
    by (rule match_none_at[rotated])
  then show "rx_match p False (drop j v) = None" by simp
qed

lemma sub1_site:
  assumes "well_formed ws1 body ws2 param ws3"
  shows "re_subn pattern replace_query (call_site ws1 body ws2 param ws3 @ r) =
    (bound_call ws1 body param @ fst (re_subn pattern replace_query r),
     Suc (snd (re_subn pattern replace_query r)))"
proof -
  have "rx_match pattern False (call_site ws1 body ws2 param ws3 @ r) =
    Some (r, [(2, param), (1, call_head ws1 body)])"
    by (simp only: rx_match_pattern match1_site[OF assms])
  from re_subn_match[OF advancing_pattern this, of replace_query] show ?thesis
    by (simp only: replace_query_bound)
qed

lemma sub2_site:
  assumes "cleanup_ok w1 w2 t"
  shows "re_subn pattern2 (expand template2) (cleanup_site w1 w2 t @ r) =
    (collapsed t @ fst (re_subn pattern2 (expand template2) r),
     Suc (snd (re_subn pattern2 (expand template2) r)))"
proof -
  have "rx_match pattern2 False (cleanup_site w1 w2 t @ r) = Some (r, [(1, t)])"
    by (simp only: rx_match_pattern2 match2_site[OF assms])
  from re_subn_match[OF advancing_pattern2 this, of "expand template2"] show ?thesis
    by (simp only: expand_collapsed)
qed

lemma step2_append_before_site:
  assumes "list_all is_space w1"
  shows "step2 (pre @ CHR '')'' # w1 @ CHR '')'' # y) = step2 pre @ step2 (CHR '')'' # w1 @ CHR '')'' # y)"
proof -
  have "\<forall>i<length pre. rx_match pattern2 False (drop i pre @ CHR '')'' # w1 @ CHR '')'' # y) =
      map_option (\<lambda>(r, g). (r @ CHR '')'' # w1 @ CHR '')'' # y, g)) (rx_match pattern2 False (drop i pre))"
    by (simp add: rx_match_pattern2 match2_before_site[OF _ assms])
  from re_subn_append[OF advancing_pattern2 this, of "expand template2"] show ?thesis
    by (simp add: step2_def re_sub_def)
qed

lemma step2_append_inert:
  assumes "\<not> is_space c" "c \<notin> set '').fetch_onal''"
  shows "step2 (pre @ c # y) = step2 pre @ step2 (c # y)"
proof -
  have "\<forall>i<length pre. rx_match pattern2 False (drop i pre @ c # y) =
      map_option (\<lambda>(r, g). (r @ c # y, g)) (rx_match pattern2 False (drop i pre))"
    by (simp add: rx_match_pattern2 match2_inert[OF assms])
  from re_subn_append[OF advancing_pattern2 this, of "expand template2"] show ?thesis
    by (simp add: step2_def re_sub_def)
qed

lemma match2_needs_paren: "s = [] \<or> hd s \<noteq> CHR '')'' \<Longrightarrow> match2 s = None"
  by (cases s) (auto simp: match2_def paren_line_def)

lemma step2_skip:
  assumes "CHR '')'' \<notin> set a"
  shows "step2 (a @ b) = a @ step2 b"
proof -
  have "\<forall>i<length a. rx_match pattern2 False (drop i (a @ b)) = None"
  proof (intro allI impI)
    fix i assume i: "i < length a"
    then have "hd (drop i (a @ b)) = a ! i" by (simp add: hd_drop_conv_nth nth_append)
    moreover have "a ! i \<noteq> CHR '')''" using assms i by (metis nth_mem)
    ultimately show "rx_match pattern2 False (drop i (a @ b)) = None"
      by (simp add: rx_match_pattern2 match2_needs_paren)
  qed
  from re_subn_skip[OF this, of "expand template2"] show ?thesis
    by (simp add: step2_def re_sub_def)
qed

lemma step2_unchanged: "match_starts pattern2 s = [] \<Longrightarrow> step2 s = s"
  using re_subn_unchanged[OF advancing_pattern2] by (simp add: step2_def re_sub_def)

lemma step2_paren_prefix: "prefix '')'' (step2 (CHR '')'' # post))"
proof (cases "match2 (CHR '')'' # post)")
  case None
  then have "rx_match pattern2 False (CHR '')'' # post) = None" by (simp add: rx_match_pattern2)
  from re_subn_Cons[OF this, of "expand template2"] show ?thesis
    by (simp add: step2_def re_sub_def)
next
  case (Some x)
  then obtain r g where x: "match2 (CHR '')'' # post) = Some (r, g)" by (cases x) auto
  from match2_shape[OF this] obtain w1 w2 t where g: "g = [(1, t)]" by blast
  have "rx_match pattern2 False (CHR '')'' # post) = Some (r, g)" using x by (simp add: rx_match_pattern2)
  from re_subn_match[OF advancing_pattern2 this, of "expand template2"] show ?thesis
    unfolding g expand_collapsed by (simp add: step2_def re_sub_def collapsed_def)
qed

lemma sub1_one_site:
  assumes wf: "well_formed ws1 body ws2 param ws3"
    and only: "match_starts pattern (pre @ call_site ws1 body ws2 param ws3 @ post) = [length pre]"
  shows "re_subn pattern replace_query (pre @ call_site ws1 body ws2 param ws3 @ post) =
    (pre @ bound_call ws1 body param @ post, 1)"
proof -
  let ?site = "call_site ws1 body ws2 param ws3"
  have ne: "0 < length ?site" by (simp add: call_site_def)
  have "\<forall>i<length pre. rx_match pattern False (drop i (pre @ ?site @ post)) = None"
  proof (intro allI impI)
    fix i assume "i < length pre"
    then have "i \<notin> set (match_starts pattern (pre @ ?site @ post))" "i \<le> length (pre @ ?site @ post)"
      using only by simp_all
    then show "rx_match pattern False (drop i (pre @ ?site @ post)) = None"
      by (rule match_none_at)
  qed
  from re_subn_skip[OF this, of replace_query]
  have 1: "re_subn pattern replace_query (pre @ ?site @ post) =
    (pre @ fst (re_subn pattern replace_query (?site @ post)), snd (re_subn pattern replace_query (?site @ post)))" .
  have "\<forall>i\<in>set (match_starts pattern ((pre @ ?site) @ post)). i < length (pre @ ?site)"
    using only ne by simp
  then have "match_starts pattern post = []" by (rule match_starts_tail)
  then have 2: "re_subn pattern replace_query post = (post, 0)"
    by (rule re_subn_unchanged[OF advancing_pattern])
  show ?thesis using 1 2 sub1_site[OF wf, of post] by simp
qed

lemma step2_bound_call:
  assumes wf: "well_formed ws1 body ws2 param ws3"
  shows "step2 (pre @ bound_call ws1 body param @ post) =
    step2 pre @ ''sqlx::query('' @ ws1 @ [CHR ''r'', CHR ''#'', dquote] @ step2 body @
      [dquote, CHR ''#''] @ '')'' @ [newline] @ ''        .bind('' @ param @ step2 ('')'' @ post)"
proof -
  from wf have ws1: "CHR '')'' \<notin> set ws1" and param: "CHR '')'' \<notin> set param"
    by (auto simp: well_formed_def list_all_iff)
  define R where "R = CHR ''#'' # '')'' @ [newline] @ ''        .bind('' @ param @ '')'' @ post"
  define S where "S = ''qlx::query('' @ ws1 @ [CHR ''r'', CHR ''#'', dquote] @ body @ dquote # R"
  have b: "pre @ bound_call ws1 body param @ post = pre @ CHR ''s'' # S"
    by (simp add: bound_call_def call_head_def S_def R_def)
  have 1: "step2 (pre @ CHR ''s'' # S) = step2 pre @ step2 (CHR ''s'' # S)"
    by (rule step2_append_inert) (simp_all add: is_space_def)
  have 2: "step2 (CHR ''s'' # S) = ''sqlx::query('' @ ws1 @ [CHR ''r'', CHR ''#'', dquote] @ step2 (body @ dquote # R)"
    using step2_skip[of "''sqlx::query('' @ ws1 @ [CHR ''r'', CHR ''#'', dquote]" "body @ dquote # R"] ws1
    by (simp add: S_def dquote_def)
  have 3: "step2 (body @ dquote # R) = step2 body @ step2 (dquote # R)"
    by (rule step2_append_inert) (simp_all add: dquote_def is_space_def)
  have 4: "step2 (dquote # R) = [dquote, CHR ''#''] @ step2 ('')'' @ [newline] @ ''        .bind('' @ param @ '')'' @ post)"
    using step2_skip[of "[dquote, CHR ''#'']" "'')'' @ [newline] @ ''        .bind('' @ param @ '')'' @ post"]
    by (simp add: R_def dquote_def)
  have "match2 ('')'' @ [newline] @ ''        .bind('' @ param @ '')'' @ post) = None"
    by (simp add: match2_def paren_line_def)
  then have "rx_match pattern2 False (CHR '')'' # [newline] @ ''        .bind('' @ param @ '')'' @ post) = None"
    by (simp add: rx_match_pattern2)
  from re_subn_Cons[OF this, of "expand template2"]
  have 5: "step2 ('')'' @ [newline] @ ''        .bind('' @ param @ '')'' @ post) =
    '')'' @ step2 ([newline] @ ''        .bind('' @ param @ '')'' @ post)"
    by (simp add: step2_def re_sub_def)
  have 6: "step2 ([newline] @ ''        .bind('' @ param @ '')'' @ post) =
    [newline] @ ''        .bind('' @ param @ step2 ('')'' @ post)"
    using step2_skip[of "[newline] @ ''        .bind('' @ param" "'')'' @ post"] param
    by (simp add: newline_def)
  show ?thesis unfolding b 1 2 3 4 5 6 by simp
qed

lemma step1_first_char:
  assumes "rx_match pattern False (c # s) = None"
  shows "step1 (c # s) = c # step1 s"
  using re_subn_Cons[OF assms, of replace_query] by (simp add: step1_def re_sub_def)

lemma match1_bad_param:
  assumes "list_all is_space ws1" "dquote \<notin> set body" "list_all is_space ws2"
    and "list_all is_word p1" "list_all is_space ws3"
    and "c \<noteq> CHR '')''" "\<not> is_space c" "p1 = [] \<or> ws3 = [] \<longrightarrow> \<not> is_word c"
  shows "match1 (call_head ws1 body @ '','' @ ws2 @ p1 @ ws3 @ c # rest) = None"
proof -
  have body: "list_all (\<lambda>c. c \<noteq> dquote) body" using assms(2) by (auto simp: list_all_iff)
  define s4 where "s4 = ws2 @ p1 @ ws3 @ c # rest"
  define s3 where "s3 = '','' @ s4"
  define s where "s = call_head ws1 body @ s3"
  have a: "dropWhile is_space (ws1 @ CHR ''r'' # x) = CHR ''r'' # x" for x
    using dropWhile_app[OF assms(1), of "CHR ''r'' # x"] by simp
  have b: "dropWhile (\<lambda>c. c \<noteq> dquote) (body @ dquote # x) = dquote # x" for x
    using dropWhile_app[OF body, of "dquote # x"] by simp
  have 1: "strip ''sqlx::query('' s = Some (ws1 @ [CHR ''r'', CHR ''#'', dquote] @ body @ [dquote, CHR ''#''] @ s3)"
    by (simp add: s_def call_head_def)
  have 2: "strip [CHR ''r'', CHR ''#'', dquote]
      (dropWhile is_space (ws1 @ [CHR ''r'', CHR ''#'', dquote] @ body @ [dquote, CHR ''#''] @ s3)) =
      Some (body @ [dquote, CHR ''#''] @ s3)"
    by (simp add: a)
  have 3: "strip [dquote, CHR ''#''] (dropWhile (\<lambda>c. c \<noteq> dquote) (body @ [dquote, CHR ''#''] @ s3)) = Some s3"
    by (simp add: b)
  have 4: "strip '','' s3 = Some s4"
    by (simp add: s3_def)
  have 5: "takeWhile is_word (dropWhile is_space s4) = [] \<or>
    strip '')'' (dropWhile is_space (dropWhile is_word (dropWhile is_space s4))) = None"
  proof (cases "p1 = []")
    case True
    then have "dropWhile is_space s4 = c # rest"
      using dropWhile_app[of is_space "ws2 @ ws3" "c # rest"] assms(3,5,7) by (simp add: s4_def)
    then show ?thesis using assms(8) True by simp
  next
    case False
    then have "\<not> is_space (hd p1)"
      using assms(4) by (cases p1) (auto simp: space_not_word)
    then have d: "dropWhile is_space s4 = p1 @ ws3 @ c # rest"
      using dropWhile_app[OF assms(3), of "p1 @ ws3 @ c # rest"] False by (simp add: s4_def)
    have "\<not> is_word (hd (ws3 @ c # rest))"
      using assms(5,8) by (cases ws3) (auto simp: space_not_word)
    then have "dropWhile is_word (p1 @ ws3 @ c # rest) = ws3 @ c # rest"
      using dropWhile_app[OF assms(4), of "ws3 @ c # rest"] by simp
    moreover have "dropWhile is_space (ws3 @ c # rest) = c # rest"
      using dropWhile_app[OF assms(5), of "c # rest"] assms(7) by simp
    ultimately show ?thesis using d assms(6) by simp
  qed
  have "match1 s = None"
    unfolding match1_def using 5
    by (auto simp only: 1 2 3 4 option.case Let_def split: if_splits)
  then show ?thesis by (simp add: s_def s3_def s4_def)
qed

lemma match1_quote_in_body:
  assumes "list_all is_space ws1" "dquote \<notin> set b1" "c \<noteq> CHR ''#''"
  shows "match1 (''sqlx::query('' @ ws1 @ ''r#'' @ [dquote] @ b1 @ [dquote, c] @ rest) = None"
proof -
  have b1: "list_all (\<lambda>c. c \<noteq> dquote) b1" using assms(2) by (auto simp: list_all_iff)
  have a: "dropWhile is_space (ws1 @ CHR ''r'' # x) = CHR ''r'' # x" for x
    using dropWhile_app[OF assms(1), of "CHR ''r'' # x"] by simp
  have b: "dropWhile (\<lambda>c. c \<noteq> dquote) (b1 @ dquote # x) = dquote # x" for x
    using dropWhile_app[OF b1, of "dquote # x"] by simp
  show ?thesis using assms(3) by (simp add: match1_def a b)
qed

text \<open>
  Text that no substitution overlaps is copied: the substitutions before it and behind it are
  those of the two parts taken alone.
\<close>

lemma local_pattern: "local_match pattern"
  unfolding local_match_def rx_match_pattern
proof (intro allI impI)
  fix s r g y
  assume "match1 s = Some (r, g)"
  from match1_shape[OF this] obtain ws1 body ws2 param ws3
    where wf: "well_formed ws1 body ws2 param ws3"
      and s: "s = call_site ws1 body ws2 param ws3 @ r" and g: "g = [(2, param), (1, call_head ws1 body)]"
    by blast
  show "match1 (take (length s - length r) s @ y) = Some (y, g)"
    using match1_site[OF wf, of y] by (simp add: s g)
qed

lemma local_pattern2: "local_match pattern2"
  unfolding local_match_def rx_match_pattern2
proof (intro allI impI)
  fix s r g y
  assume "match2 s = Some (r, g)"
  from match2_shape[OF this] obtain w1 w2 t
    where ok: "cleanup_ok w1 w2 t" and s: "s = cleanup_site w1 w2 t @ r" and g: "g = [(1, t)]"
    by blast
  show "match2 (take (length s - length r) s @ y) = Some (y, g)"
    using match2_site[OF ok, of y] by (simp add: s g)
qed

lemma scan_spans_Cons:
  "rx_match p False (c # cs) = None \<Longrightarrow> scan_spans p k (c # cs) = scan_spans p (Suc k) cs"
  by (simp add: scan_spans.simps[of p k "c # cs"])

lemma scan_spans_match:
  "rx_match p False s = Some (r, g) \<Longrightarrow> length r < length s \<Longrightarrow>
   scan_spans p k s = (k, k + (length s - length r)) # scan_spans p (k + (length s - length r)) r"
  by (simp add: scan_spans.simps[of p k s])

lemma re_subn_through:
  assumes adv: "advancing p"
    and "\<forall>(i, j)\<in>set (scan_spans p k (u @ post)). j \<le> k0 \<or> k + length u \<le> i" "k0 \<le> k"
  shows "re_subn p repl (u @ post) = (u @ fst (re_subn p repl post), snd (re_subn p repl post))"
  using assms(2,3)
proof (induction u arbitrary: k)
  case Nil
  then show ?case by simp
next
  case (Cons c u)
  have none: "rx_match p False (c # u @ post) = None"
  proof (cases "rx_match p False (c # u @ post)")
    case (Some x)
    then obtain r g where x: "rx_match p False (c # u @ post) = Some (r, g)" by (cases x) auto
    then have len: "length r < length (c # u @ post)" using adv unfolding advancing_def by blast
    have "(k, k + (length (c # u @ post) - length r)) \<in> set (scan_spans p k ((c # u) @ post))"
      using scan_spans_match[OF x len, of k] by simp
    with Cons.prems(1) have "k + (length (c # u @ post) - length r) \<le> k0 \<or> k + length (c # u) \<le> k"
      by blast
    with len Cons.prems(2) show ?thesis by simp
  qed
  have "\<forall>(i, j)\<in>set (scan_spans p (Suc k) (u @ post)). j \<le> k0 \<or> Suc k + length u \<le> i"
    using Cons.prems(1) scan_spans_Cons[OF none, of k] by simp
  then have "re_subn p repl (u @ post) = (u @ fst (re_subn p repl post), snd (re_subn p repl post))"
    using Cons.prems(2) by (intro Cons.IH[of "Suc k"]) simp_all
  then show ?case using re_subn_Cons[OF none, of repl] by simp
qed

lemma re_subn_around_aux:
  assumes adv: "advancing p" and loc: "local_match p"
    and "\<forall>(i, j)\<in>set (scan_spans p k (t @ site @ post)). j \<le> k + length t \<or> k + length t + length site \<le> i"
  shows "re_subn p repl (t @ site @ post) =
    (fst (re_subn p repl t) @ site @ fst (re_subn p repl post),
     snd (re_subn p repl t) + snd (re_subn p repl post))"
  using assms(3)
proof (induction "length t" arbitrary: t k rule: less_induct)
  case less
  show ?case
  proof (cases t)
    case Nil
    have "re_subn p repl (site @ post) = (site @ fst (re_subn p repl post), snd (re_subn p repl post))"
      by (rule re_subn_through[OF adv, of k _ _ k]) (use less.prems Nil in auto)
    then show ?thesis using Nil by (simp add: re_subn_Nil[OF adv])
  next
    case (Cons c t')
    show ?thesis
    proof (cases "rx_match p False (t @ site @ post)")
      case None
      have nt: "rx_match p False t = None"
      proof (cases "rx_match p False t")
        case (Some x)
        then obtain r g where x: "rx_match p False t = Some (r, g)" by (cases x) auto
        then have "suffix r t" by (rule rx_match_suffix)
        then have "take (length t - length r) t @ r = t" by (auto simp: suffix_def)
        moreover have "rx_match p False (take (length t - length r) t @ (r @ site @ post)) = Some (r @ site @ post, g)"
          using loc x unfolding local_match_def by blast
        ultimately show ?thesis using None by (metis append.assoc option.distinct(1))
      qed
      have sp: "scan_spans p k (t @ site @ post) = scan_spans p (Suc k) (t' @ site @ post)"
        using scan_spans_Cons[of p c "t' @ site @ post" k] None Cons by simp
      have "re_subn p repl (t' @ site @ post) =
        (fst (re_subn p repl t') @ site @ fst (re_subn p repl post),
         snd (re_subn p repl t') + snd (re_subn p repl post))"
        by (rule less.hyps[of t' "Suc k"]) (use less.prems sp Cons in auto)
      then show ?thesis
        using re_subn_Cons[of p c "t' @ site @ post" repl] re_subn_Cons[of p c t' repl] None nt Cons
        by simp
    next
      case (Some x)
      then obtain r g where x: "rx_match p False (t @ site @ post) = Some (r, g)" by (cases x) auto
      then have len: "length r < length (t @ site @ post)" using adv unfolding advancing_def by blast
      define L where "L = length (t @ site @ post) - length r"
      have sp: "scan_spans p k (t @ site @ post) = (k, k + L) # scan_spans p (k + L) r"
        unfolding L_def by (rule scan_spans_match[OF x len])
      then have "k + L \<le> k + length t \<or> k + length t + length site \<le> k"
        using less.prems by simp
      then have L: "L \<le> length t" "0 < L" using Cons len by (auto simp: L_def)
      have "suffix r (t @ site @ post)" using x by (rule rx_match_suffix)
      then obtain zs where zs: "t @ site @ post = zs @ r" by (auto simp: suffix_def)
      then have "length (t @ site @ post) = length zs + length r" by simp
      then have "L = length zs" by (simp add: L_def)
      then have r: "r = drop L (t @ site @ post)" using zs by simp
      then have r': "r = drop L t @ site @ post" using L by simp
      have "rx_match p False (take L (t @ site @ post) @ drop L t) = Some (drop L t, g)"
        using loc x unfolding local_match_def L_def by blast
      then have xt: "rx_match p False t = Some (drop L t, g)" using L by simp
      have "re_subn p repl (drop L t @ site @ post) =
        (fst (re_subn p repl (drop L t)) @ site @ fst (re_subn p repl post),
         snd (re_subn p repl (drop L t)) + snd (re_subn p repl post))"
        by (rule less.hyps[of "drop L t" "k + L"]) (use less.prems sp r' L Cons in auto)
      then show ?thesis
        using re_subn_match[OF adv x, of repl] re_subn_match[OF adv xt, of repl] r' by simp
    qed
  qed
qed

lemma re_subn_around:
  assumes "advancing p" "local_match p"
    and "\<forall>(i, j)\<in>set (scan_spans p 0 (pre @ site @ post)). j \<le> length pre \<or> length pre + length site \<le> i"
  shows "re_subn p repl (pre @ site @ post) =
    (fst (re_subn p repl pre) @ site @ fst (re_subn p repl post),
     snd (re_subn p repl pre) + snd (re_subn p repl post))"
  by (rule re_subn_around_aux[OF assms(1,2), of 0]) (use assms(3) in simp)

lemma step1_around:
  assumes "\<forall>(i, j)\<in>set (scan_spans pattern 0 (pre @ site @ post)). j \<le> length pre \<or> length pre + length site \<le> i"
  shows "step1 (pre @ site @ post) = step1 pre @ site @ step1 post"
  using re_subn_around[OF advancing_pattern local_pattern assms, of replace_query]
  by (simp add: step1_def re_sub_def)

lemma step2_around:
  assumes "\<forall>(i, j)\<in>set (scan_spans pattern2 0 (pre @ site @ post)). j \<le> length pre \<or> length pre + length site \<le> i"
  shows "step2 (pre @ site @ post) = step2 pre @ site @ step2 post"
  using re_subn_around[OF advancing_pattern2 local_pattern2 assms, of "expand template2"]
  by (simp add: step2_def re_sub_def)

lemma scan_spans_count:
  assumes adv: "advancing p"
  shows "length (scan_spans p k s) = snd (re_subn p repl s)"
proof (induction "length s" arbitrary: s k rule: less_induct)
  case less
  show ?case
  proof (cases "rx_match p False s")
    case None
    show ?thesis
    proof (cases s)
      case Nil
      then show ?thesis using None by (simp add: scan_spans.simps[of p k "[]"] re_subn_Nil[OF adv])
    next
      case (Cons c cs)
      then show ?thesis
        using None scan_spans_Cons[of p c cs k] re_subn_Cons[of p c cs repl] less(1)[of cs "Suc k"]
        by simp
    qed
  next
    case (Some x)
    then obtain r g where x: "rx_match p False s = Some (r, g)" by (cases x) auto
    then have len: "length r < length s" using adv unfolding advancing_def by blast
    show ?thesis
      using scan_spans_match[OF x len, of k] re_subn_match[OF adv x, of repl]
        less(1)[OF len, of "k + (length s - length r)"] by simp
  qed
qed

lemma scan_spans_sound:
  "(i, j) \<in> set (scan_spans p k s) \<Longrightarrow>
     k \<le> i \<and> i < j \<and> j \<le> k + length s \<and>
     (\<exists>g. rx_match p False (drop (i - k) s) = Some (drop (j - k) s, g))"
proof (induction "length s" arbitrary: s k rule: less_induct)
  case less
  show ?case
  proof (cases "rx_match p False s")
    case None
    show ?thesis
    proof (cases s)
      case Nil
      then show ?thesis using None less.prems by (simp add: scan_spans.simps[of p k "[]"])
    next
      case (Cons c cs)
      then have "(i, j) \<in> set (scan_spans p (Suc k) cs)"
        using None less.prems scan_spans_Cons[of p c cs k] by simp
      from less.hyps[OF _ this] Cons
      have a: "Suc k \<le> i" "i < j" "j \<le> Suc k + length cs"
        and "\<exists>g. rx_match p False (drop (i - Suc k) cs) = Some (drop (j - Suc k) cs, g)"
        by auto
      then obtain g where g: "rx_match p False (drop (i - Suc k) cs) = Some (drop (j - Suc k) cs, g)"
        by blast
      have "i - k = Suc (i - Suc k)" "j - k = Suc (j - Suc k)" using a by auto
      then have "rx_match p False (drop (i - k) s) = Some (drop (j - k) s, g)"
        using g Cons by simp
      then show ?thesis using a Cons by auto
    qed
  next
    case (Some x)
    then obtain r g where x: "rx_match p False s = Some (r, g)" by (cases x) auto
    show ?thesis
    proof (cases "length r < length s")
      case False
      then show ?thesis using x less.prems by (simp add: scan_spans.simps[of p k s])
    next
      case True
      define L where "L = length s - length r"
      have "suffix r s" using x by (rule rx_match_suffix)
      then obtain zs where zs: "s = zs @ r" by (auto simp: suffix_def)
      then have Lz: "L = length zs" by (simp add: L_def)
      then have r: "r = drop L s" using zs by simp
      have L: "0 < L" "L \<le> length s" using True by (auto simp: L_def)
      have sp: "scan_spans p k s = (k, k + L) # scan_spans p (k + L) r"
        unfolding L_def by (rule scan_spans_match[OF x True])
      show ?thesis
      proof (cases "(i, j) = (k, k + L)")
        case True
        then show ?thesis using x r L by auto
      next
        case False
        then have "(i, j) \<in> set (scan_spans p (k + L) r)" using less.prems sp by auto
        from less.hyps[OF _ this] True
        have a: "k + L \<le> i" "i < j" "j \<le> k + L + length r"
          and "\<exists>g. rx_match p False (drop (i - (k + L)) r) = Some (drop (j - (k + L)) r, g)"
          by auto
        then obtain g' where g': "rx_match p False (drop (i - (k + L)) r) = Some (drop (j - (k + L)) r, g')"
          by blast
        have "drop (i - (k + L)) r = drop (i - k) s" "drop (j - (k + L)) r = drop (j - k) s"
          using a unfolding r by (simp_all add: add.commute)
        then have "rx_match p False (drop (i - k) s) = Some (drop (j - k) s, g')" using g' by simp
        moreover have "length r + L = length s" using zs Lz by simp
        ultimately show ?thesis using a by auto
      qed
    qed
  qed
qed

section \<open>The claims\<close>

subsection \<open>C1: one well-formed call site\<close>

text \<open>
  C1, as the claim states it, fails. The buffer below is exactly one well-formed call site
  and holds no \<open>.bind(\<close>, but the body of its raw string holds two closing delimiters on
  their own lines before \<open>.fetch_all\<close>. Step 2 runs on the whole buffer and collapses them,
  so the raw string literal of the input appears nowhere in the output.
\<close>

theorem one_call_site_counterexample:
  "list_all is_space [] \<and> dquote \<notin> set (''a)'' @ [newline] @ '')'' @ [newline] @ ''.fetch_all'') \<and>
   list_all is_word ''f'' \<and>
   match_starts pattern (''sqlx::query(r#'' @ [dquote] @ ''a)'' @ [newline] @ '')'' @ [newline] @
     ''.fetch_all'' @ [dquote] @ ''#, f)'') = [0] \<and>
   count_str ''.bind('' (''sqlx::query(r#'' @ [dquote] @ ''a)'' @ [newline] @ '')'' @ [newline] @
     ''.fetch_all'' @ [dquote] @ ''#, f)'') = 0 \<and>
   \<not> sublist (''r#'' @ [dquote] @ ''a)'' @ [newline] @ '')'' @ [newline] @ ''.fetch_all'' @ [dquote] @ ''#'')
     (fst (rewrite (''sqlx::query(r#'' @ [dquote] @ ''a)'' @ [newline] @ '')'' @ [newline] @
       ''.fetch_all'' @ [dquote] @ ''#, f)'')))"
  by code_simp

text \<open>
  C1, amended. For every input buffer that holds exactly one well-formed call site
  \<open>sqlx::query(r#"..."#, param)\<close> with a single bare-identifier parameter (the Step-1
  pattern matches at that position and nowhere else) and no \<open>.bind(\<close>: Step 1 returns the
  buffer with the invocation token and the raw string literal unchanged, followed by a
  closing delimiter, a line break, eight spaces and \<open>.bind(param)\<close>, and the text before and
  after as it was. \<open>rewrite\<close> returns this with Step 2 applied to the text before the call
  site, to the body of the literal, and to the text from the closing delimiter of the bind
  call on (which still starts with that delimiter). So the literal is unchanged whenever
  the Step-2 pattern matches nowhere in its body. The reported count is 1.
\<close>

theorem one_call_site:
  assumes "list_all is_space ws1" "dquote \<notin> set body" "list_all is_space ws2"
    and "param \<noteq> []" "list_all is_word param" "list_all is_space ws3"
    and "content = pre @ ''sqlx::query('' @ ws1 @ ''r#'' @ [dquote] @ body @ [dquote] @ ''#,'' @
          ws2 @ param @ ws3 @ '')'' @ post"
    and "match_starts pattern content = [length pre]"
    and "count_str ''.bind('' content = 0"
  shows "step1 content =
      pre @ ''sqlx::query('' @ ws1 @ ''r#'' @ [dquote] @ body @ [dquote] @ ''#)'' @ [newline] @
        ''        .bind('' @ param @ '')'' @ post \<and>
    fst (rewrite content) =
      step2 pre @ ''sqlx::query('' @ ws1 @ ''r#'' @ [dquote] @ step2 body @ [dquote] @ ''#)'' @ [newline] @
        ''        .bind('' @ param @ step2 ('')'' @ post) \<and>
    prefix '')'' (step2 ('')'' @ post)) \<and>
    (match_starts pattern2 body = [] \<longrightarrow> step2 body = body) \<and>
    snd (rewrite content) = 1"
proof -
  have wf: "well_formed ws1 body ws2 param ws3"
    using assms(1-6) by (simp add: well_formed_def)
  have c: "content = pre @ call_site ws1 body ws2 param ws3 @ post"
    using assms(7) by (simp add: call_site_def call_head_def)
  have sub: "re_subn pattern replace_query content = (pre @ bound_call ws1 body param @ post, 1)"
    unfolding c by (rule sub1_one_site[OF wf assms(8)[unfolded c]])
  then have s1: "step1 content = pre @ bound_call ws1 body param @ post"
    by (simp add: step1_def re_sub_def)
  have n: "snd (rewrite content) = 1"
    using count_step1[of "[]" content] count_step2[of "[]" "step1 content"] sub assms(9)
    by (simp add: rewrite_eq)
  show ?thesis
    using s1 n step2_bound_call[OF wf, of pre post] step2_paren_prefix[of post] step2_unchanged[of body]
    by (simp add: rewrite_eq bound_call_def call_head_def)
qed

theorem one_call_site_witness:
  "match_starts pattern (''let r = sqlx::query(r#'' @ [dquote] @ ''SELECT 1'' @ [dquote] @ ''#, tool);'') = [8] \<and>
   match_starts pattern2 ''SELECT 1'' = [] \<and>
   count_str ''.bind('' (''let r = sqlx::query(r#'' @ [dquote] @ ''SELECT 1'' @ [dquote] @ ''#, tool);'') = 0 \<and>
   rewrite (''let r = sqlx::query(r#'' @ [dquote] @ ''SELECT 1'' @ [dquote] @ ''#, tool);'') =
     (''let r = sqlx::query(r#'' @ [dquote] @ ''SELECT 1'' @ [dquote] @ ''#)'' @ [newline] @
        ''        .bind(tool);'', 1)"
proof -
  define content where
    "content = ''let r = sqlx::query(r#'' @ [dquote] @ ''SELECT 1'' @ [dquote] @ ''#, tool);''"
  have 1: "list_all is_space []" "dquote \<notin> set ''SELECT 1''" "list_all is_space '' ''"
    "''tool'' \<noteq> []" "list_all is_word ''tool''"
    by code_simp+
  have 2: "content = ''let r = '' @ ''sqlx::query('' @ [] @ ''r#'' @ [dquote] @ ''SELECT 1'' @ [dquote] @ ''#,'' @
          '' '' @ ''tool'' @ [] @ '')'' @ '';''"
    by (simp add: content_def)
  have 3: "match_starts pattern content = [length ''let r = '']"
    unfolding content_def by code_simp
  have 4: "count_str ''.bind('' content = 0"
    unfolding content_def by code_simp
  have 5: "step2 ''let r = '' = ''let r = ''" "step2 ('')'' @ '';'') = '');''"
    by code_simp+
  have 6: "match_starts pattern2 ''SELECT 1'' = []"
    by code_simp
  have "fst (rewrite content) = ''let r = sqlx::query(r#'' @ [dquote] @ ''SELECT 1'' @ [dquote] @ ''#)'' @ [newline] @
        ''        .bind(tool);'' \<and> snd (rewrite content) = 1"
    using one_call_site[OF 1(1,2,3,4,5) 1(1) 2 3 4] 5 6 by simp
  then have "rewrite content = (''let r = sqlx::query(r#'' @ [dquote] @ ''SELECT 1'' @ [dquote] @ ''#)'' @ [newline] @
        ''        .bind(tool);'', 1)"
    by (metis prod.collapse)
  then show ?thesis using 3 4 6 by (simp add: content_def)
qed

subsection \<open>C2: buffers without a Step-1 call site\<close>

text \<open>
  C2, as the claim states it, fails: a buffer in which the Step-1 pattern matches nowhere
  is still changed by Step 2 when it holds two closing delimiters on their own lines before
  a \<open>.fetch_one\<close>.
\<close>

theorem no_call_site_unchanged_counterexample:
  "match_starts pattern ('')'' @ [newline] @ '')'' @ [newline] @ ''.fetch_one'') = [] \<and>
   fst (rewrite ('')'' @ [newline] @ '')'' @ [newline] @ ''.fetch_one'')) \<noteq>
     '')'' @ [newline] @ '')'' @ [newline] @ ''.fetch_one''"
  by code_simp

text \<open>
  C2, amended. For every input buffer in which the Step-1 pattern matches nowhere, Step 1
  returns the buffer unchanged, so \<open>rewrite\<close> returns Step 2 applied to the input; that is the
  input itself when the Step-2 pattern matches nowhere in it either. In every case the
  reported count is the number of occurrences of \<open>.bind(\<close> already present in the input.
\<close>

theorem no_call_site_rewrite:
  assumes "match_starts pattern content = []"
  shows "step1 content = content \<and>
    rewrite content = (step2 content, count_str ''.bind('' content) \<and>
    (match_starts pattern2 content = [] \<longrightarrow> rewrite content = (content, count_str ''.bind('' content))"
proof -
  have 1: "step1 content = content"
    using re_subn_unchanged[OF advancing_pattern assms] by (simp add: step1_def re_sub_def)
  have 2: "count_str ''.bind('' (step2 content) = count_str ''.bind('' content"
    using count_step2[of "[]" content] by simp
  have 3: "step2 content = content" if "match_starts pattern2 content = []"
    using re_subn_unchanged[OF advancing_pattern2 that] by (simp add: step2_def re_sub_def)
  show ?thesis using 1 2 3 by (simp add: rewrite_eq)
qed

theorem no_call_site_rewrite_witness:
  "match_starts pattern ''let x = foo.bind(y);'' = [] \<and>
   match_starts pattern2 ''let x = foo.bind(y);'' = [] \<and>
   step1 ''let x = foo.bind(y);'' = ''let x = foo.bind(y);'' \<and>
   rewrite ''let x = foo.bind(y);'' = (''let x = foo.bind(y);'', 1)"
proof -
  have 1: "match_starts pattern ''let x = foo.bind(y);'' = []" by code_simp
  have 2: "match_starts pattern2 ''let x = foo.bind(y);'' = []" by code_simp
  have 3: "count_str ''.bind('' ''let x = foo.bind(y);'' = 1" by code_simp
  show ?thesis using no_call_site_rewrite[OF 1] 1 2 3 by auto
qed

subsection \<open>C3: running the transformation twice\<close>

text \<open>
  C3, as the claim states it, fails. On three closing delimiters on their own lines before a
  \<open>.fetch_one\<close> the first run collapses the last two; the Step-1 pattern matches nowhere in
  the result, and yet a second run collapses again.
\<close>

theorem idempotent_counterexample:
  "match_starts pattern
     (fst (rewrite ('')'' @ [newline] @ '')'' @ [newline] @ '')'' @ [newline] @ ''.fetch_one''))) = [] \<and>
   rewrite (fst (rewrite ('')'' @ [newline] @ '')'' @ [newline] @ '')'' @ [newline] @ ''.fetch_one''))) \<noteq>
     rewrite ('')'' @ [newline] @ '')'' @ [newline] @ '')'' @ [newline] @ ''.fetch_one'')"
  by code_simp

text \<open>
  C3, amended. For every input buffer, if the Step-1 pattern matches nowhere in the output of
  \<open>rewrite\<close>, then a second run introduces no further \<open>.bind(\<close>: it reports the same count.
  If the Step-2 pattern matches nowhere in that output either, the second run returns the
  output of the first unchanged.
\<close>

theorem second_run:
  assumes "match_starts pattern (fst (rewrite content)) = []"
  shows "snd (rewrite (fst (rewrite content))) = snd (rewrite content) \<and>
    (match_starts pattern2 (fst (rewrite content)) = [] \<longrightarrow>
       rewrite (fst (rewrite content)) = rewrite content)"
proof -
  let ?out = "fst (rewrite content)"
  have 1: "step1 ?out = ?out"
    using re_subn_unchanged[OF advancing_pattern assms] by (simp add: step1_def re_sub_def)
  have 2: "count_str ''.bind('' (step2 ?out) = count_str ''.bind('' ?out"
    using count_step2[of "[]" ?out] by simp
  have 3: "step2 ?out = ?out" if "match_starts pattern2 ?out = []"
    using re_subn_unchanged[OF advancing_pattern2 that] by (simp add: step2_def re_sub_def)
  have 4: "rewrite ?out = (step2 ?out, count_str ''.bind('' (step2 ?out))"
    using 1 by (simp add: rewrite_eq)
  have 5: "rewrite content = (?out, count_str ''.bind('' ?out)"
    by (simp add: rewrite_eq)
  show ?thesis using 2 3 4 5 by (metis snd_conv)
qed

theorem second_run_witness:
  "match_starts pattern (fst (rewrite (''sqlx::query(r#'' @ [dquote] @ ''q'' @ [dquote] @ ''#, id)''))) = [] \<and>
   match_starts pattern2 (fst (rewrite (''sqlx::query(r#'' @ [dquote] @ ''q'' @ [dquote] @ ''#, id)''))) = [] \<and>
   rewrite (fst (rewrite (''sqlx::query(r#'' @ [dquote] @ ''q'' @ [dquote] @ ''#, id)''))) =
     rewrite (''sqlx::query(r#'' @ [dquote] @ ''q'' @ [dquote] @ ''#, id)'') \<and>
   snd (rewrite (''sqlx::query(r#'' @ [dquote] @ ''q'' @ [dquote] @ ''#, id)'')) = 1"
proof -
  have 1: "match_starts pattern
      (fst (rewrite (''sqlx::query(r#'' @ [dquote] @ ''q'' @ [dquote] @ ''#, id)''))) = []"
    by code_simp
  have 2: "match_starts pattern2
      (fst (rewrite (''sqlx::query(r#'' @ [dquote] @ ''q'' @ [dquote] @ ''#, id)''))) = []"
    by code_simp
  have 3: "snd (rewrite (''sqlx::query(r#'' @ [dquote] @ ''q'' @ [dquote] @ ''#, id)'')) = 1"
    by code_simp
  show ?thesis using second_run[OF 1] 1 2 3 by auto
qed

subsection \<open>C4: the cleanup of Step 2\<close>

text \<open>
  C4. For every buffer that holds a closing delimiter, white space with a line break in it,
  a second closing delimiter, again white space with a line break in it, and then
  \<open>.fetch_one\<close> or \<open>.fetch_all\<close>, Step 2 replaces this by one closing delimiter, a line
  break, eight spaces and the same terminal call; the text before and the text after are
  treated by Step 2 on their own.
\<close>

theorem cleanup_collapses:
  assumes "list_all is_space w1" "newline \<in> set w1" "list_all is_space w2" "newline \<in> set w2"
    and "t = ''fetch_one'' \<or> t = ''fetch_all''"
  shows "step2 (pre @ '')'' @ w1 @ '')'' @ w2 @ ''.'' @ t @ post) =
    step2 pre @ '')'' @ [newline] @ ''        .'' @ t @ step2 post"
proof -
  have ok: "cleanup_ok w1 w2 t" using assms by (simp add: cleanup_ok_def)
  have "step2 (pre @ '')'' @ w1 @ '')'' @ w2 @ ''.'' @ t @ post) =
    step2 pre @ step2 (cleanup_site w1 w2 t @ post)"
    using step2_append_before_site[OF assms(1), of pre "w2 @ ''.'' @ t @ post"]
    by (simp add: cleanup_site_def)
  also have "step2 (cleanup_site w1 w2 t @ post) = collapsed t @ step2 post"
    using sub2_site[OF ok, of post] by (simp add: step2_def re_sub_def)
  finally show ?thesis by (simp add: collapsed_def)
qed

theorem cleanup_collapses_witness:
  "step2 (''f(x'' @ '')'' @ [newline] @ '')'' @ [newline, CHR '' ''] @ ''.'' @ ''fetch_all'' @ ''(p)'') =
     ''f(x'' @ '')'' @ [newline] @ ''        .'' @ ''fetch_all'' @ ''(p)''"
proof -
  have 1: "list_all is_space [newline]" "list_all is_space [newline, CHR '' '']" by simp_all
  have 2: "step2 ''f(x'' = ''f(x''" "step2 ''(p)'' = ''(p)''" by code_simp+
  show ?thesis
    using cleanup_collapses[OF 1(1) _ 1(2), of "''fetch_all''" "''f(x''" "''(p)''"] 2 by simp
qed

subsection \<open>C5: call sites of another shape\<close>

text \<open>
  C5, as the claim states it, fails. In the first buffer below the parameter is the expression
  \<open>f()\<close> and the call is closed on the next line; the Step-1 pattern matches nowhere.
  Step 2 takes the delimiter closing \<open>f()\<close> and the one closing the call for its cleanup
  shape and removes the second: the call site does not reach the output unchanged. In the
  second buffer the call has two parameters, the second being a call of the expected shape;
  the pattern does not match at the call site, and Step 1 substitutes inside it.
\<close>

theorem malformed_call_site_counterexample:
  "match_starts pattern
     (''sqlx::query(r#'' @ [dquote] @ ''q'' @ [dquote] @ ''#, f()'' @ [newline] @ '')'' @ [newline] @ ''.fetch_one(p)'') = [] \<and>
   fst (rewrite
     (''sqlx::query(r#'' @ [dquote] @ ''q'' @ [dquote] @ ''#, f()'' @ [newline] @ '')'' @ [newline] @ ''.fetch_one(p)'')) =
     ''sqlx::query(r#'' @ [dquote] @ ''q'' @ [dquote] @ ''#, f()'' @ [newline] @ ''        .fetch_one(p)'' \<and>
   \<not> sublist (''sqlx::query(r#'' @ [dquote] @ ''q'' @ [dquote] @ ''#, f()'' @ [newline] @ '')'')
     (fst (rewrite
       (''sqlx::query(r#'' @ [dquote] @ ''q'' @ [dquote] @ ''#, f()'' @ [newline] @ '')'' @ [newline] @ ''.fetch_one(p)''))) \<and>
   rx_match pattern False
     (''sqlx::query(r#'' @ [dquote] @ ''a'' @ [dquote] @ ''#, x, sqlx::query(r#'' @ [dquote] @ ''b'' @ [dquote] @ ''#, y))'') = None \<and>
   scan_spans pattern 0
     (''sqlx::query(r#'' @ [dquote] @ ''a'' @ [dquote] @ ''#, x, sqlx::query(r#'' @ [dquote] @ ''b'' @ [dquote] @ ''#, y))'') = [(23, 45)] \<and>
   fst (rewrite
     (''sqlx::query(r#'' @ [dquote] @ ''a'' @ [dquote] @ ''#, x, sqlx::query(r#'' @ [dquote] @ ''b'' @ [dquote] @ ''#, y))'')) =
     ''sqlx::query(r#'' @ [dquote] @ ''a'' @ [dquote] @ ''#, x, sqlx::query(r#'' @ [dquote] @ ''b'' @ [dquote] @ ''#)'' @
       [newline] @ ''        .bind(y))'' \<and>
   \<not> sublist
     (''sqlx::query(r#'' @ [dquote] @ ''a'' @ [dquote] @ ''#, x, sqlx::query(r#'' @ [dquote] @ ''b'' @ [dquote] @ ''#, y))'')
     (fst (rewrite
       (''sqlx::query(r#'' @ [dquote] @ ''a'' @ [dquote] @ ''#, x, sqlx::query(r#'' @ [dquote] @ ''b'' @ [dquote] @ ''#, y))'')))"
  by code_simp

text \<open>
  C5, amended. For every input buffer, a call site that no substitution of Step 1 overlaps is
  copied by Step 1 character for character, between what Step 1 makes of the text before it
  and of the text behind it; if no substitution of Step 2 overlaps it in the result of Step 1
  either, it stands unchanged in the output of \<open>rewrite\<close>, whatever both steps substitute
  elsewhere. No substitution of Step 1 starts at a call site whose invocation token and raw
  string are well formed and whose parameter list is not one bare identifier before the
  closing delimiter: the pattern does not match there when, after the comma, white space, a
  possibly empty word and white space, the next character \<open>c\<close> is not the closing delimiter
  (a second comma, an operator, an opening parenthesis, a second word). No error is raised:
  \<open>step1\<close> and \<open>rewrite\<close> are total.
\<close>

theorem unmatched_call_site:
  "(list_all is_space ws1 \<and> dquote \<notin> set body \<and> list_all is_space ws2 \<and>
    list_all is_word p1 \<and> list_all is_space ws3 \<and>
    c \<noteq> CHR '')'' \<and> \<not> is_space c \<and> (p1 = [] \<or> ws3 = [] \<longrightarrow> \<not> is_word c) \<longrightarrow>
      rx_match pattern False
        (''sqlx::query('' @ ws1 @ ''r#'' @ [dquote] @ body @ [dquote] @ ''#,'' @
          ws2 @ p1 @ ws3 @ [c] @ rest) = None) \<and>
   ((\<forall>(i, j)\<in>set (scan_spans pattern 0 (pre @ site @ post)).
        j \<le> length pre \<or> length pre + length site \<le> i) \<longrightarrow>
      step1 (pre @ site @ post) = step1 pre @ site @ step1 post \<and>
      ((\<forall>(i, j)\<in>set (scan_spans pattern2 0 (step1 pre @ site @ step1 post)).
           j \<le> length (step1 pre) \<or> length (step1 pre) + length site \<le> i) \<longrightarrow>
         fst (rewrite (pre @ site @ post)) = step2 (step1 pre) @ site @ step2 (step1 post)))"
proof (intro conjI impI; (elim conjE)?)
  assume a: "list_all is_space ws1" "dquote \<notin> set body" "list_all is_space ws2"
    "list_all is_word p1" "list_all is_space ws3"
    "c \<noteq> CHR '')''" "\<not> is_space c" "p1 = [] \<or> ws3 = [] \<longrightarrow> \<not> is_word c"
  have "match1 (call_head ws1 body @ '','' @ ws2 @ p1 @ ws3 @ c # rest) = None"
    by (rule match1_bad_param[OF a])
  then show "rx_match pattern False
        (''sqlx::query('' @ ws1 @ ''r#'' @ [dquote] @ body @ [dquote] @ ''#,'' @
          ws2 @ p1 @ ws3 @ [c] @ rest) = None"
    by (simp add: rx_match_pattern call_head_def)
next
  assume one: "\<forall>(i, j)\<in>set (scan_spans pattern 0 (pre @ site @ post)).
        j \<le> length pre \<or> length pre + length site \<le> i"
  show s: "step1 (pre @ site @ post) = step1 pre @ site @ step1 post"
    by (rule step1_around[OF one])
  assume two: "\<forall>(i, j)\<in>set (scan_spans pattern2 0 (step1 pre @ site @ step1 post)).
           j \<le> length (step1 pre) \<or> length (step1 pre) + length site \<le> i"
  show "fst (rewrite (pre @ site @ post)) = step2 (step1 pre) @ site @ step2 (step1 post)"
    using s step2_around[OF two] by (simp add: rewrite_eq)
qed

theorem unmatched_call_site_witness:
  "rx_match pattern False
     (''sqlx::query(r#'' @ [dquote] @ ''q'' @ [dquote] @ ''#, a, b); sqlx::query(r#'' @
      [dquote] @ ''z'' @ [dquote] @ ''#, k)'' @ [newline] @ '')'' @ [newline] @ ''.fetch_one(c)'') = None \<and>
   scan_spans pattern 0
     (''sqlx::query(r#'' @ [dquote] @ ''p'' @ [dquote] @ ''#, u); sqlx::query(r#'' @
      [dquote] @ ''q'' @ [dquote] @ ''#, a, b); sqlx::query(r#'' @
      [dquote] @ ''z'' @ [dquote] @ ''#, k)'' @ [newline] @ '')'' @ [newline] @ ''.fetch_one(c)'') = [(0, 22), (51, 73)] \<and>
   fst (rewrite
     (''sqlx::query(r#'' @ [dquote] @ ''p'' @ [dquote] @ ''#, u); sqlx::query(r#'' @
      [dquote] @ ''q'' @ [dquote] @ ''#, a, b); sqlx::query(r#'' @
      [dquote] @ ''z'' @ [dquote] @ ''#, k)'' @ [newline] @ '')'' @ [newline] @ ''.fetch_one(c)'')) =
     ''sqlx::query(r#'' @ [dquote] @ ''p'' @ [dquote] @ ''#)'' @ [newline] @ ''        .bind(u); sqlx::query(r#'' @
      [dquote] @ ''q'' @ [dquote] @ ''#, a, b); sqlx::query(r#'' @
      [dquote] @ ''z'' @ [dquote] @ ''#)'' @ [newline] @ ''        .bind(k)'' @ [newline] @ ''        .fetch_one(c)''"
proof -
  define pre where "pre = ''sqlx::query(r#'' @ [dquote] @ ''p'' @ [dquote] @ ''#, u); ''"
  define site where "site = ''sqlx::query(r#'' @ [dquote] @ ''q'' @ [dquote] @ ''#, a, b)''"
  define post where "post = ''; sqlx::query(r#'' @ [dquote] @ ''z'' @ [dquote] @ ''#, k)'' @
    [newline] @ '')'' @ [newline] @ ''.fetch_one(c)''"
  note inst = unmatched_call_site[of "[]" "''q''" "'' ''" "''a''" "[]" "CHR '',''" "'' b)'' @ post" pre site post]
  have 1: "list_all is_space [] \<and> dquote \<notin> set ''q'' \<and> list_all is_space '' '' \<and>
    list_all is_word ''a'' \<and> list_all is_space [] \<and>
    CHR '','' \<noteq> CHR '')'' \<and> \<not> is_space CHR '','' \<and> (''a'' = [] \<or> ([] :: string) = [] \<longrightarrow> \<not> is_word CHR '','')"
    by code_simp
  have 2: "site @ post = ''sqlx::query('' @ [] @ ''r#'' @ [dquote] @ ''q'' @ [dquote] @ ''#,'' @
          '' '' @ ''a'' @ [] @ [CHR '',''] @ '' b)'' @ post"
    by (simp add: site_def)
  have fail: "rx_match pattern False (site @ post) = None"
    unfolding 2 by (rule inst[THEN conjunct1, THEN mp, OF 1])
  have 3: "scan_spans pattern 0 (pre @ site @ post) = [(0, 22), (51, 73)]"
    unfolding pre_def site_def post_def by code_simp
  have 4: "step1 pre = ''sqlx::query(r#'' @ [dquote] @ ''p'' @ [dquote] @ ''#)'' @ [newline] @ ''        .bind(u); ''"
    unfolding pre_def by code_simp
  have 5: "step1 post = ''; sqlx::query(r#'' @ [dquote] @ ''z'' @ [dquote] @ ''#)'' @ [newline] @
      ''        .bind(k)'' @ [newline] @ '')'' @ [newline] @ ''.fetch_one(c)''"
    unfolding post_def by code_simp
  have 6: "scan_spans pattern2 0 (step1 pre @ site @ step1 post) = [(100, 114)]"
    unfolding 4 5 site_def by code_simp
  have 7: "length pre = 24" "length site = 25" "length (step1 pre) = 38"
    unfolding 4 by (simp_all add: pre_def site_def)
  have 8: "step2 (step1 pre) = ''sqlx::query(r#'' @ [dquote] @ ''p'' @ [dquote] @ ''#)'' @ [newline] @ ''        .bind(u); ''"
    unfolding 4 by code_simp
  have 9: "step2 (step1 post) = ''; sqlx::query(r#'' @ [dquote] @ ''z'' @ [dquote] @ ''#)'' @ [newline] @
      ''        .bind(k)'' @ [newline] @ ''        .fetch_one(c)''"
    unfolding 5 by code_simp
  have "fst (rewrite (pre @ site @ post)) = step2 (step1 pre) @ site @ step2 (step1 post)"
    using inst[THEN conjunct2] 3 6 7 by simp
  then have "fst (rewrite (pre @ site @ post)) =
      (''sqlx::query(r#'' @ [dquote] @ ''p'' @ [dquote] @ ''#)'' @ [newline] @ ''        .bind(u); '') @ site @
      (''; sqlx::query(r#'' @ [dquote] @ ''z'' @ [dquote] @ ''#)'' @ [newline] @
      ''        .bind(k)'' @ [newline] @ ''        .fetch_one(c)'')"
    by (simp only: 8 9)
  then show ?thesis using fail 3 by (simp add: pre_def site_def post_def)
qed

subsection \<open>C6: the reported count\<close>

text \<open>
  C6. For every input buffer the count that \<open>rewrite\<close> reports is the number of occurrences
  of the marker \<open>.bind(\<close> in the final buffer, after Step 1 and Step 2. It is not the number
  of substitutions Step 1 performed (the second component of \<open>re_subn\<close>): it is that number
  plus the number of occurrences of the marker the input already had, so it exceeds the
  number of rewritten call sites exactly when the input contained the marker.
\<close>

theorem reported_count_counts_marker:
  "snd (rewrite content) = count_str ''.bind('' (fst (rewrite content)) \<and>
   snd (rewrite content) =
     snd (re_subn pattern replace_query content) + count_str ''.bind('' content"
  using count_step1[of "[]" content] count_step2[of "[]" "step1 content"]
  by (simp add: rewrite_eq)

theorem reported_count_counts_marker_witness:
  "snd (rewrite (''a.bind(b); sqlx::query(r#'' @ [dquote] @ ''q'' @ [dquote] @ ''#, id)'')) = 2 \<and>
   snd (re_subn pattern replace_query
     (''a.bind(b); sqlx::query(r#'' @ [dquote] @ ''q'' @ [dquote] @ ''#, id)'')) = 1 \<and>
   count_str ''.bind('' (''a.bind(b); sqlx::query(r#'' @ [dquote] @ ''q'' @ [dquote] @ ''#, id)'') = 1"
proof -
  have n: "snd (re_subn pattern replace_query
     (''a.bind(b); sqlx::query(r#'' @ [dquote] @ ''q'' @ [dquote] @ ''#, id)'')) = 1"
    by code_simp
  have c: "count_str ''.bind('' (''a.bind(b); sqlx::query(r#'' @ [dquote] @ ''q'' @ [dquote] @ ''#, id)'') = 1"
    by code_simp
  show ?thesis
    using reported_count_counts_marker
      [of "''a.bind(b); sqlx::query(r#'' @ [dquote] @ ''q'' @ [dquote] @ ''#, id)''"] n c
    by simp
qed

subsection \<open>C7: two call sites\<close>

text \<open>
  C7. For every buffer that holds two well-formed call sites one after the other (the Step-1
  pattern matches at their two positions and nowhere else) and no \<open>.bind(\<close>: Step 1 replaces
  the first and continues with the text behind it, where it replaces the second; it makes
  two substitutions. Both bind calls are in the final buffer, and the reported count is 2.
\<close>

theorem two_call_sites:
  assumes "well_formed u1 q1 v1 p1 w1" "well_formed u2 q2 v2 p2 w2"
    and "content = a @ call_site u1 q1 v1 p1 w1 @ b @ call_site u2 q2 v2 p2 w2 @ c"
    and "match_starts pattern content =
          [length a, length a + length (call_site u1 q1 v1 p1 w1) + length b]"
    and "count_str ''.bind('' content = 0"
  shows "step1 content = a @ bound_call u1 q1 p1 @ step1 (b @ call_site u2 q2 v2 p2 w2 @ c) \<and>
    step1 (b @ call_site u2 q2 v2 p2 w2 @ c) = b @ bound_call u2 q2 p2 @ c \<and>
    snd (re_subn pattern replace_query content) = 2 \<and>
    fst (rewrite content) =
      step2 a @ ''sqlx::query('' @ u1 @ ''r#'' @ [dquote] @ step2 q1 @ [dquote] @ ''#)'' @ [newline] @
        ''        .bind('' @ p1 @ step2 ('')'' @ b) @
      ''sqlx::query('' @ u2 @ ''r#'' @ [dquote] @ step2 q2 @ [dquote] @ ''#)'' @ [newline] @
        ''        .bind('' @ p2 @ step2 ('')'' @ c) \<and>
    snd (rewrite content) = 2"
proof -
  let ?s1 = "call_site u1 q1 v1 p1 w1" and ?s2 = "call_site u2 q2 v2 p2 w2"
  have ne: "0 < length ?s1" "0 < length ?s2" by (simp_all add: call_site_def)
  have none: "rx_match pattern False (drop i content) = None"
    if "i \<le> length content" "i \<noteq> length a" "i \<noteq> length a + length ?s1 + length b" for i
    using that assms(4) by (intro match_none_at) simp_all
  have "\<forall>i<length a. rx_match pattern False (drop i (a @ ?s1 @ b @ ?s2 @ c)) = None"
  proof (intro allI impI)
    fix i assume i: "i < length a"
    have "rx_match pattern False (drop i content) = None"
      using i assms(3) by (intro none) simp_all
    then show "rx_match pattern False (drop i (a @ ?s1 @ b @ ?s2 @ c)) = None"
      using assms(3) by simp
  qed
  from re_subn_skip[OF this, of replace_query]
  have 1: "re_subn pattern replace_query content =
    (a @ fst (re_subn pattern replace_query (?s1 @ b @ ?s2 @ c)),
     snd (re_subn pattern replace_query (?s1 @ b @ ?s2 @ c)))"
    using assms(3) by simp
  have "\<forall>i<length b. rx_match pattern False (drop i (b @ ?s2 @ c)) = None"
  proof (intro allI impI)
    fix i assume i: "i < length b"
    have "rx_match pattern False (drop (length a + length ?s1 + i) content) = None"
      using i ne assms(3) by (intro none) simp_all
    then show "rx_match pattern False (drop i (b @ ?s2 @ c)) = None"
      using assms(3) by simp
  qed
  from re_subn_skip[OF this, of replace_query]
  have 2: "re_subn pattern replace_query (b @ ?s2 @ c) =
    (b @ fst (re_subn pattern replace_query (?s2 @ c)), snd (re_subn pattern replace_query (?s2 @ c)))" .
  have "\<forall>i\<in>set (match_starts pattern ((a @ ?s1 @ b @ ?s2) @ c)). i < length (a @ ?s1 @ b @ ?s2)"
    using assms(3,4) ne by simp
  then have "match_starts pattern c = []" by (rule match_starts_tail)
  then have 3: "re_subn pattern replace_query c = (c, 0)"
    by (rule re_subn_unchanged[OF advancing_pattern])
  have r2: "re_subn pattern replace_query (b @ ?s2 @ c) = (b @ bound_call u2 q2 p2 @ c, 1)"
    using 2 3 sub1_site[OF assms(2), of c] by simp
  have r1: "re_subn pattern replace_query content =
    (a @ bound_call u1 q1 p1 @ b @ bound_call u2 q2 p2 @ c, 2)"
    using 1 r2 sub1_site[OF assms(1), of "b @ ?s2 @ c"] by simp
  have s1: "step1 content = a @ bound_call u1 q1 p1 @ b @ bound_call u2 q2 p2 @ c"
    and s2: "step1 (b @ ?s2 @ c) = b @ bound_call u2 q2 p2 @ c"
    using r1 r2 by (simp_all add: step1_def re_sub_def)
  have n: "snd (rewrite content) = 2"
    using count_step1[of "[]" content] count_step2[of "[]" "step1 content"] r1 assms(5)
    by (simp add: rewrite_eq)
  have "step2 ((a @ bound_call u1 q1 p1 @ b) @ bound_call u2 q2 p2 @ c) =
    step2 (a @ bound_call u1 q1 p1 @ b) @ ''sqlx::query('' @ u2 @ [CHR ''r'', CHR ''#'', dquote] @ step2 q2 @
      [dquote, CHR ''#''] @ '')'' @ [newline] @ ''        .bind('' @ p2 @ step2 ('')'' @ c)"
    by (rule step2_bound_call[OF assms(2)])
  then have f: "fst (rewrite content) =
      step2 a @ ''sqlx::query('' @ u1 @ ''r#'' @ [dquote] @ step2 q1 @ [dquote] @ ''#)'' @ [newline] @
        ''        .bind('' @ p1 @ step2 ('')'' @ b) @
      ''sqlx::query('' @ u2 @ ''r#'' @ [dquote] @ step2 q2 @ [dquote] @ ''#)'' @ [newline] @
        ''        .bind('' @ p2 @ step2 ('')'' @ c)"
    using step2_bound_call[OF assms(1), of a b] s1 by (simp add: rewrite_eq)
  show ?thesis using s1 s2 r1 n f by simp
qed

theorem two_call_sites_witness:
  "match_starts pattern
     (''sqlx::query(r#'' @ [dquote] @ ''A'' @ [dquote] @ ''#, x); sqlx::query( r#'' @ [dquote] @ ''B'' @ [dquote] @ ''#,y )'')
     = [0, 24] \<and>
   step1 (''sqlx::query(r#'' @ [dquote] @ ''A'' @ [dquote] @ ''#, x); sqlx::query( r#'' @ [dquote] @ ''B'' @ [dquote] @ ''#,y )'')
     = ''sqlx::query(r#'' @ [dquote] @ ''A'' @ [dquote] @ ''#)'' @ [newline] @ ''        .bind(x); '' @
       ''sqlx::query( r#'' @ [dquote] @ ''B'' @ [dquote] @ ''#)'' @ [newline] @ ''        .bind(y)'' \<and>
   snd (rewrite (''sqlx::query(r#'' @ [dquote] @ ''A'' @ [dquote] @ ''#, x); sqlx::query( r#'' @ [dquote] @ ''B'' @ [dquote] @ ''#,y )''))
     = 2"
proof -
  define content where "content =
    ''sqlx::query(r#'' @ [dquote] @ ''A'' @ [dquote] @ ''#, x); sqlx::query( r#'' @ [dquote] @ ''B'' @ [dquote] @ ''#,y )''"
  have 1: "well_formed [] ''A'' '' '' ''x'' []" "well_formed '' '' ''B'' [] ''y'' '' ''"
    by code_simp+
  have 2: "content = [] @ call_site [] ''A'' '' '' ''x'' [] @ ''; '' @ call_site '' '' ''B'' [] ''y'' '' '' @ []"
    by (simp add: content_def call_site_def call_head_def)
  have l: "length (call_site [] ''A'' '' '' ''x'' []) = 22"
    by (simp add: call_site_def call_head_def)
  have 3: "match_starts pattern content = [0, 24]"
    unfolding content_def by code_simp
  have 4: "count_str ''.bind('' content = 0"
    unfolding content_def by code_simp
  have 5: "match_starts pattern content =
    [length ([] :: string), length ([] :: string) + length (call_site [] ''A'' '' '' ''x'' []) + length ''; '']"
    using 3 l by simp
  show ?thesis using two_call_sites[OF 1 2 5 4] 3
    by (simp add: content_def bound_call_def call_head_def)
qed

subsection \<open>C8: determinism\<close>

text \<open>
  C8. The output buffer and the reported count are a function, \<open>rewrite\<close>, of the input
  buffer, and the run of the script depends on nothing but the content of the target file:
  from any two worlds that agree on that file the script ends the same way, leaves the
  same content in the target file, prints the same lines and performs the same writes. When
  the target file exists, what the run leaves in it and the count it prints are the two
  components of \<open>rewrite\<close> on its content.
\<close>

theorem deterministic:
  assumes "files w file_path = files w' file_path"
  shows "fst (main w) = fst (main w') \<and>
    files (snd (main w)) file_path = files (snd (main w')) file_path \<and>
    drop (length (console w)) (console (snd (main w))) =
      drop (length (console w')) (console (snd (main w'))) \<and>
    drop (length (writes w)) (writes (snd (main w))) =
      drop (length (writes w')) (writes (snd (main w'))) \<and>
    (\<forall>content. files w file_path = Some content \<longrightarrow>
       files (snd (main w)) file_path = Some (fst (rewrite content)) \<and>
       drop (length (console w)) (console (snd (main w))) =
         [Backup_created backup_path, Fixed_syntax file_path,
          Fixed_count (snd (rewrite content)), Build_hint])"
  using assms
  by (auto simp: main_def shutil_copy_def fix_sqlx_syntax_def read_text_def write_text_def print_def
      Let_def case_prod_unfold backup_path_neq split: option.splits)

theorem deterministic_witness:
  "files world_a file_path = files world_b file_path \<and>
   world_a \<noteq> world_b \<and>
   fst (main world_a) = fst (main world_b) \<and>
   files (snd (main world_a)) file_path = files (snd (main world_b)) file_path \<and>
   drop (length (console world_b)) (console (snd (main world_b))) = console (snd (main world_a)) \<and>
   console (snd (main world_a)) =
     [Backup_created backup_path, Fixed_syntax file_path, Fixed_count 1, Build_hint]"
proof -
  have 1: "files world_a file_path = files world_b file_path"
    by (simp add: world_a_def world_b_def file_path_def)
  have 2: "world_a \<noteq> world_b" "console world_a = []"
    by (auto simp: world_a_def world_b_def)
  have 3: "files world_a file_path =
    Some (''sqlx::query(r#'' @ [dquote] @ ''q'' @ [dquote] @ ''#, id)'')"
    by (simp add: world_a_def backup_path_neq)
  have 4: "snd (rewrite (''sqlx::query(r#'' @ [dquote] @ ''q'' @ [dquote] @ ''#, id)'')) = 1"
    by code_simp
  note d = deterministic[OF 1]
  have 5: "fst (main world_a) = fst (main world_b)"
    "files (snd (main world_a)) file_path = files (snd (main world_b)) file_path"
    "drop (length (console world_a)) (console (snd (main world_a))) =
      drop (length (console world_b)) (console (snd (main world_b)))"
    using d by blast+
  have 6: "drop (length (console world_a)) (console (snd (main world_a))) =
         [Backup_created backup_path, Fixed_syntax file_path,
          Fixed_count (snd (rewrite (''sqlx::query(r#'' @ [dquote] @ ''q'' @ [dquote] @ ''#, id)''))), Build_hint]"
    using d 3 by blast
  show ?thesis using 1 2 4 5 6 by simp
qed

subsection \<open>C9: the backup\<close>

text \<open>
  C9. For every run of the script: if the target file does not exist the run fails before
  anything is written; otherwise the run writes exactly twice, first the backup file (the
  target path with \<open>.bak2\<close> appended) with the original content of the target and then the
  target with the rewritten content, and at the end the backup file holds the original
  content.
\<close>

theorem backup_before_write:
  "(files w file_path = None \<longrightarrow>
      main w = (Some (FileNotFound file_path), w)) \<and>
   (\<forall>original. files w file_path = Some original \<longrightarrow>
      fst (main w) = None \<and>
      writes (snd (main w)) = writes w @
        [(backup_path, original),
         (file_path, fst (rewrite original))] \<and>
      files (snd (main w)) backup_path = Some original \<and>
      files (snd (main w)) file_path = Some (fst (rewrite original)))"
  by (auto simp: main_def shutil_copy_def fix_sqlx_syntax_def read_text_def write_text_def print_def
      Let_def case_prod_unfold backup_path_neq split: option.splits)

theorem backup_before_write_witness:
  "files world_a file_path =
     Some (''sqlx::query(r#'' @ [dquote] @ ''q'' @ [dquote] @ ''#, id)'') \<and>
   writes (snd (main world_a)) =
     [(backup_path, ''sqlx::query(r#'' @ [dquote] @ ''q'' @ [dquote] @ ''#, id)''),
      (file_path,
       ''sqlx::query(r#'' @ [dquote] @ ''q'' @ [dquote] @ ''#)'' @ [newline] @ ''        .bind(id)'')] \<and>
   files (snd (main world_a)) backup_path =
     Some (''sqlx::query(r#'' @ [dquote] @ ''q'' @ [dquote] @ ''#, id)'')"
proof -
  have 1: "files world_a file_path =
     Some (''sqlx::query(r#'' @ [dquote] @ ''q'' @ [dquote] @ ''#, id)'')"
    by (simp add: world_a_def backup_path_neq)
  have 2: "fst (rewrite (''sqlx::query(r#'' @ [dquote] @ ''q'' @ [dquote] @ ''#, id)'')) =
    ''sqlx::query(r#'' @ [dquote] @ ''q'' @ [dquote] @ ''#)'' @ [newline] @ ''        .bind(id)''"
    by code_simp
  have 3: "writes world_a = []" by (simp add: world_a_def)
  show ?thesis
    using backup_before_write[of world_a, THEN conjunct2, rule_format, OF 1] 1 2 3 by simp
qed

subsection \<open>C10: a double quote in the raw string\<close>

text \<open>
  C10, as the claim states it, fails. In the buffer below the raw string body of the call site
  holds double quotes before the closing marker, and behind the last of them the text of a
  call of the expected shape. The Step-1 pattern does not match at the call site, yet it
  matches inside it, and Step 1 rewrites that part of the call site.
\<close>

theorem quote_in_body_counterexample:
  "rx_match pattern False
     (''sqlx::query(r#'' @ [dquote] @ ''say '' @ [dquote] @ ''hi'' @ [dquote] @ '' sqlx::query(r#'' @
       [dquote] @ ''q'' @ [dquote] @ ''#, x)'') = None \<and>
   scan_spans pattern 0
     (''sqlx::query(r#'' @ [dquote] @ ''say '' @ [dquote] @ ''hi'' @ [dquote] @ '' sqlx::query(r#'' @
       [dquote] @ ''q'' @ [dquote] @ ''#, x)'') = [(24, 46)] \<and>
   step1
     (''sqlx::query(r#'' @ [dquote] @ ''say '' @ [dquote] @ ''hi'' @ [dquote] @ '' sqlx::query(r#'' @
       [dquote] @ ''q'' @ [dquote] @ ''#, x)'') =
     ''sqlx::query(r#'' @ [dquote] @ ''say '' @ [dquote] @ ''hi'' @ [dquote] @ '' sqlx::query(r#'' @
       [dquote] @ ''q'' @ [dquote] @ ''#)'' @ [newline] @ ''        .bind(x)'' \<and>
   \<not> sublist
     (''sqlx::query(r#'' @ [dquote] @ ''say '' @ [dquote] @ ''hi'' @ [dquote] @ '' sqlx::query(r#'' @
       [dquote] @ ''q'' @ [dquote] @ ''#, x)'')
     (step1
       (''sqlx::query(r#'' @ [dquote] @ ''say '' @ [dquote] @ ''hi'' @ [dquote] @ '' sqlx::query(r#'' @
         [dquote] @ ''q'' @ [dquote] @ ''#, x)''))"
  by code_simp

text \<open>
  C10, amended. For every input buffer, at a call site whose raw string body holds a double
  quote that does not start the closing marker (the character after it is not \<open>#\<close>) the
  Step-1 pattern does not match, whatever follows: the body class of the pattern excludes the
  double quote, so the pattern cannot run past it to a later closing marker. The scan of
  Step 1 copies the first character of the call site and goes on behind it; if no
  substitution of Step 1 overlaps the call site, Step 1 copies the whole call site character
  for character, between what it makes of the text before it and of the text behind it.
\<close>

theorem quote_in_body:
  assumes "list_all is_space ws1" "dquote \<notin> set b1" "c \<noteq> CHR ''#''"
    and "site = ''sqlx::query('' @ ws1 @ ''r#'' @ [dquote] @ b1 @ [dquote, c] @ rest"
  shows "rx_match pattern False (site @ post) = None \<and>
    step1 (site @ post) = CHR ''s'' # step1 (tl (site @ post)) \<and>
    ((\<forall>(i, j)\<in>set (scan_spans pattern 0 (pre @ site @ post)).
         j \<le> length pre \<or> length pre + length site \<le> i) \<longrightarrow>
      step1 (pre @ site @ post) = step1 pre @ site @ step1 post)"
proof -
  have s: "site @ post = ''sqlx::query('' @ ws1 @ ''r#'' @ [dquote] @ b1 @ [dquote, c] @ (rest @ post)"
    using assms(4) by simp
  have fail: "rx_match pattern False (site @ post) = None"
    unfolding s rx_match_pattern by (rule match1_quote_in_body[OF assms(1-3)])
  have hd: "site @ post = CHR ''s'' # tl (site @ post)"
    using assms(4) by simp
  have first: "step1 (site @ post) = CHR ''s'' # step1 (tl (site @ post))"
    using step1_first_char[of "CHR ''s''" "tl (site @ post)"] fail hd by simp
  show ?thesis
    using fail first step1_around[of pre site post] by simp
qed

theorem quote_in_body_witness:
  "rx_match pattern False
     (''sqlx::query(r#'' @ [dquote] @ ''say '' @ [dquote] @ ''hi'' @ [dquote, dquote] @ ''#, y); sqlx::query(r#'' @
       [dquote] @ ''z'' @ [dquote] @ ''#, k)'') = None \<and>
   scan_spans pattern 0
     (''sqlx::query(r#'' @ [dquote] @ ''p'' @ [dquote] @ ''#, u); sqlx::query(r#'' @
       [dquote] @ ''say '' @ [dquote] @ ''hi'' @ [dquote, dquote] @ ''#, y); sqlx::query(r#'' @
       [dquote] @ ''z'' @ [dquote] @ ''#, k)'') = [(0, 22), (55, 77)] \<and>
   step1
     (''sqlx::query(r#'' @ [dquote] @ ''p'' @ [dquote] @ ''#, u); sqlx::query(r#'' @
       [dquote] @ ''say '' @ [dquote] @ ''hi'' @ [dquote, dquote] @ ''#, y); sqlx::query(r#'' @
       [dquote] @ ''z'' @ [dquote] @ ''#, k)'') =
     ''sqlx::query(r#'' @ [dquote] @ ''p'' @ [dquote] @ ''#)'' @ [newline] @ ''        .bind(u); sqlx::query(r#'' @
       [dquote] @ ''say '' @ [dquote] @ ''hi'' @ [dquote, dquote] @ ''#, y); sqlx::query(r#'' @
       [dquote] @ ''z'' @ [dquote] @ ''#)'' @ [newline] @ ''        .bind(k)''"
proof -
  define pre where "pre = ''sqlx::query(r#'' @ [dquote] @ ''p'' @ [dquote] @ ''#, u); ''"
  define site where "site = ''sqlx::query(r#'' @ [dquote] @ ''say '' @ [dquote] @ ''hi'' @ [dquote, dquote] @ ''#, y)''"
  define post where "post = ''; sqlx::query(r#'' @ [dquote] @ ''z'' @ [dquote] @ ''#, k)''"
  have 1: "list_all is_space []" "dquote \<notin> set ''say ''" "CHR ''h'' \<noteq> CHR ''#''"
    by code_simp+
  have 2: "site = ''sqlx::query('' @ [] @ ''r#'' @ [dquote] @ ''say '' @ [dquote, CHR ''h''] @
     (''i'' @ [dquote, dquote] @ ''#, y)'')"
    by (simp add: site_def)
  note inst = quote_in_body[OF 1 2, of post pre]
  have 3: "scan_spans pattern 0 (pre @ site @ post) = [(0, 22), (55, 77)]"
    unfolding pre_def site_def post_def by code_simp
  have 4: "step1 pre = ''sqlx::query(r#'' @ [dquote] @ ''p'' @ [dquote] @ ''#)'' @ [newline] @ ''        .bind(u); ''"
    unfolding pre_def by code_simp
  have 5: "step1 post = ''; sqlx::query(r#'' @ [dquote] @ ''z'' @ [dquote] @ ''#)'' @ [newline] @ ''        .bind(k)''"
    unfolding post_def by code_simp
  have 7: "length pre = 24" "length site = 29"
    by (simp_all add: pre_def site_def)
  have "rx_match pattern False (site @ post) = None \<and>
    step1 (pre @ site @ post) = step1 pre @ site @ step1 post"
    using inst 3 7 by simp
  then have "rx_match pattern False (site @ post) = None \<and>
    step1 (pre @ site @ post) =
      (''sqlx::query(r#'' @ [dquote] @ ''p'' @ [dquote] @ ''#)'' @ [newline] @ ''        .bind(u); '') @ site @
      (''; sqlx::query(r#'' @ [dquote] @ ''z'' @ [dquote] @ ''#)'' @ [newline] @ ''        .bind(k)'')"
    by (simp only: 4 5)
  then show ?thesis using 3 by (simp add: pre_def site_def post_def)
qed

end
